theory Spec2Isabelle
  imports Main
begin

section \<open>JavaScript strings and insertion-ordered maps\<close>

text \<open>
  A path argument is a JavaScript value that is either a string or \<open>undefined\<close>
  (an omitted argument); \<open>None\<close> stands for \<open>undefined\<close>. The test \<open>!path\<close>
  holds for \<open>undefined\<close> and for the empty string.
\<close>

definition falsy :: "string option \<Rightarrow> bool" where
  "falsy path = (case path of None \<Rightarrow> True | Some p \<Rightarrow> p = [])"

text \<open>Interpolation of a path into a template literal.\<close>

definition js_str :: "string option \<Rightarrow> string" where
  "js_str path = (case path of None \<Rightarrow> ''undefined'' | Some p \<Rightarrow> p)"

text \<open>\<open>s.split(c)\<close> for a one-character separator: never empty, \<open>''''.split(c) = ['''']\<close>.\<close>

fun split :: "char \<Rightarrow> string \<Rightarrow> string list" where
  "split c [] = [[]]"
| "split c (x # xs) =
     (if x = c then [] # split c xs
      else (case split c xs of [] \<Rightarrow> [[x]] | w # ws \<Rightarrow> (x # w) # ws))"

text \<open>\<open>parts.join(sep)\<close>.\<close>

fun join :: "string \<Rightarrow> string list \<Rightarrow> string" where
  "join sep [] = []"
| "join sep [p] = p"
| "join sep (p # q # ps) = p @ sep @ join sep (q # ps)"

text \<open>\<open>path.split('/').filter(Boolean)\<close>: the non-empty segments.\<close>

definition segments :: "string \<Rightarrow> string list" where
  "segments path = filter (\<lambda>seg. seg \<noteq> []) (split CHR ''/'' path)"

definition startsWith :: "string \<Rightarrow> char \<Rightarrow> bool" where
  "startsWith path c = (case path of [] \<Rightarrow> False | x # _ \<Rightarrow> x = c)"

text \<open>
  A JavaScript \<open>Map\<close> from names to node references, as an association list in insertion
  order. \<open>set\<close> on an existing key keeps its position; \<open>delete\<close> removes the key.
\<close>

type_synonym ref = nat
type_synonym children_map = "(string \<times> ref) list"

definition map_has :: "children_map \<Rightarrow> string \<Rightarrow> bool" where
  "map_has m k = (map_of m k \<noteq> None)"

definition map_get :: "children_map \<Rightarrow> string \<Rightarrow> ref option" where
  "map_get m k = map_of m k"

fun map_set :: "children_map \<Rightarrow> string \<Rightarrow> ref \<Rightarrow> children_map" where
  "map_set [] k v = [(k, v)]"
| "map_set ((k', v') # m) k v = (if k' = k then (k, v) # m else (k', v') # map_set m k v)"

definition map_delete :: "children_map \<Rightarrow> string \<Rightarrow> children_map" where
  "map_delete m k = filter (\<lambda>e. fst e \<noteq> k) m"

definition map_keys :: "children_map \<Rightarrow> string list" where
  "map_keys m = map fst m"

section \<open>The file system of the complete implementation\<close>

datatype node_type = File | Directory

record FileSystemNode =
  name :: string
  type :: node_type
  content :: string
  children :: children_map
  parent :: "ref option"

text \<open>The constructor \<open>new FileSystemNode(name, type, content)\<close>.\<close>

definition new_node :: "string \<Rightarrow> node_type \<Rightarrow> string \<Rightarrow> FileSystemNode" where
  "new_node nm ty c = \<lparr>name = nm, type = ty, content = c, children = [], parent = None\<rparr>"

text \<open>
  Objects live in a store indexed by reference; a new object gets the next index.
  \<open>root\<close> and \<open>currentDir\<close> are references, compared by identity.
\<close>

record FileSystem =
  heap :: "FileSystemNode list"
  root :: ref
  currentDir :: ref

text \<open>
  The three statements that \<open>createStructure\<close>, \<open>mkdirp\<close>, \<open>mkdir\<close> and \<open>touch\<close> share:
  construct a node, set its parent, store it in the parent's children under its name.
\<close>

definition link_new ::
  "FileSystemNode list \<Rightarrow> ref \<Rightarrow> string \<Rightarrow> node_type \<Rightarrow> string \<Rightarrow> FileSystemNode list" where
  "link_new h par nm ty c =
     (let node = length h;
          h1 = h @ [(new_node nm ty c)\<lparr>parent := Some par\<rparr>]
      in h1[par := (h1 ! par)\<lparr>children := map_set (children (h1 ! par)) nm node\<rparr>])"

subsection \<open>Seeding\<close>

datatype seed = SFile string | SDir "(string \<times> seed) list"

function createStructure ::
  "FileSystemNode list \<Rightarrow> ref \<Rightarrow> (string \<times> seed) list \<Rightarrow> FileSystemNode list" where
  "createStructure h parentNode [] = h"
| "createStructure h parentNode ((nm, v) # rest) =
     (let node = length h;
          h2 = (case v of SFile c \<Rightarrow> link_new h parentNode nm File c
                        | SDir _ \<Rightarrow> link_new h parentNode nm Directory []);
          h3 = (case v of SFile _ \<Rightarrow> h2 | SDir sub \<Rightarrow> createStructure h2 node sub)
      in createStructure h3 parentNode rest)"
  by pat_completeness auto
termination
  by (relation "measure (\<lambda>(h, p, es). size_list (size_prod (\<lambda>_. 0) size) es)") auto

definition defaultStructure :: "(string \<times> seed) list" where
  "defaultStructure =
    [(''thecmdchallenge'', SDir
      [(''the-ultimate-joke.txt'', SFile []),
       (''small-name'', SDir
         [(''level1'', SDir [(''level2'', SDir [(''level3'', SDir [(''level4'', SDir
            [(''level5'', SDir [(''level6'', SDir [(''trophy.txt'', SFile [])])])])])])])]),
       (''funcode'', SDir
         [(''kids.jpg'', SFile []),
          (''the-most-funny'', SDir []),
          (''images'', SDir [(''hello'', SDir [])])]),
       (''boringfolder'', SDir [(''child'', SDir [(''the-mostboring-text.txt'', SFile [])])]),
       (''kamehameha'', SDir [(''dragon-ball-jokes.md'', SFile [])])])]"

text \<open>The constructor \<open>new FileSystem()\<close>: a root directory, seeded with the default tree.\<close>

definition new_FileSystem :: FileSystem where
  "new_FileSystem =
     \<lparr>heap = createStructure [new_node ''/'' Directory []] 0 defaultStructure,
      root = 0, currentDir = 0\<rparr>"

subsection \<open>Path resolution\<close>

text \<open>The loop of \<open>resolvePath\<close> over the segments; \<open>None\<close> is \<open>null\<close>.\<close>

fun resolve_loop :: "FileSystemNode list \<Rightarrow> ref \<Rightarrow> string list \<Rightarrow> ref option" where
  "resolve_loop h current [] = Some current"
| "resolve_loop h current (part # parts) =
     (if part = ''..''
      then resolve_loop h (case parent (h ! current) of None \<Rightarrow> current | Some p \<Rightarrow> p) parts
      else if part \<noteq> ''.''
      then (case map_get (children (h ! current)) part of
              None \<Rightarrow> None
            | Some next \<Rightarrow> resolve_loop h next parts)
      else resolve_loop h current parts)"

definition resolvePath :: "FileSystem \<Rightarrow> string option \<Rightarrow> ref option" where
  "resolvePath fs path =
     (if falsy path then Some (currentDir fs)
      else resolve_loop (heap fs)
             (if startsWith (js_str path) CHR ''/'' then root fs else currentDir fs)
             (segments (js_str path)))"

subsection \<open>Operations\<close>

text \<open>
  The loop of \<open>mkdirp\<close>; \<open>mkdirp_step\<close> is the conditional at the head of its body.
  \<open>current\<close> is the result of \<open>children.get\<close>, so it may be \<open>undefined\<close>; reading
  \<open>children\<close> of \<open>undefined\<close> throws, which is the result \<open>None\<close>.
\<close>

definition mkdirp_step :: "FileSystemNode list \<Rightarrow> ref \<Rightarrow> string \<Rightarrow> FileSystemNode list" where
  "mkdirp_step h cur part =
     (if \<not> map_has (children (h ! cur)) part then link_new h cur part Directory [] else h)"

fun mkdirp_loop ::
  "FileSystemNode list \<Rightarrow> ref option \<Rightarrow> string list \<Rightarrow> FileSystemNode list option" where
  "mkdirp_loop h current [] = Some h"
| "mkdirp_loop h current (part # parts) =
     (case current of
        None \<Rightarrow> None
      | Some cur \<Rightarrow>
          (let h' = mkdirp_step h cur part
           in mkdirp_loop h' (map_get (children (h' ! cur)) part) parts))"

definition mkdirp :: "FileSystem \<Rightarrow> string \<Rightarrow> (FileSystem \<times> string) option" where
  "mkdirp fs path =
     (case mkdirp_loop (heap fs) (Some (currentDir fs)) (segments path) of
        None \<Rightarrow> None
      | Some h \<Rightarrow> Some (fs\<lparr>heap := h\<rparr>, []))"

definition mkdir :: "FileSystem \<Rightarrow> string \<Rightarrow> FileSystem \<times> string" where
  "mkdir fs nm =
     (if map_has (children (heap fs ! currentDir fs)) nm
      then (fs, ''mkdir: '' @ nm @ '': Directory already exists'')
      else (fs\<lparr>heap := link_new (heap fs) (currentDir fs) nm Directory []\<rparr>, []))"

definition touch :: "FileSystem \<Rightarrow> string \<Rightarrow> FileSystem \<times> string" where
  "touch fs nm =
     (if map_has (children (heap fs ! currentDir fs)) nm
      then (fs, ''touch: '' @ nm @ '': File already exists'')
      else (fs\<lparr>heap := link_new (heap fs) (currentDir fs) nm File []\<rparr>, []))"

definition cd :: "FileSystem \<Rightarrow> string option \<Rightarrow> FileSystem \<times> string" where
  "cd fs path =
     (if path = Some ''/'' then (fs\<lparr>currentDir := root fs\<rparr>, [])
      else (case resolvePath fs path of
              None \<Rightarrow> (fs, ''cd: '' @ js_str path @ '': No such directory'')
            | Some target \<Rightarrow>
                if type (heap fs ! target) \<noteq> Directory
                then (fs, ''cd: '' @ js_str path @ '': Not a directory'')
                else (fs\<lparr>currentDir := target\<rparr>, [])))"

definition ls :: "FileSystem \<Rightarrow> string option \<Rightarrow> string" where
  "ls fs path =
     (case (if \<not> falsy path then resolvePath fs path else Some (currentDir fs)) of
        None \<Rightarrow> ''ls: '' @ js_str path @ '': No such file or directory''
      | Some target \<Rightarrow>
          if type (heap fs ! target) = File then name (heap fs ! target)
          else join [CHR 0x0A] (map_keys (children (heap fs ! target))))"

text \<open>
  The loop of \<open>pwd\<close> follows parent references until it meets the root or \<open>null\<close>;
  nothing in the loop itself bounds it, so it is a partial function.
\<close>

partial_function (option) pwd_loop ::
  "FileSystemNode list \<Rightarrow> ref \<Rightarrow> ref option \<Rightarrow> string list \<Rightarrow> string list option" where
  "pwd_loop h r current parts =
     (case current of
        None \<Rightarrow> Some parts
      | Some c \<Rightarrow>
          if c = r then Some ([] # parts)
          else pwd_loop h r (parent (h ! c)) (name (h ! c) # parts))"

declare pwd_loop.simps [code]

definition pwd :: "FileSystem \<Rightarrow> string option" where
  "pwd fs =
     (case pwd_loop (heap fs) (root fs) (Some (currentDir fs)) [] of
        None \<Rightarrow> None
      | Some parts \<Rightarrow> Some (if join ''/'' parts = [] then ''/'' else join ''/'' parts))"

text \<open>
  The common prefix of \<open>rm\<close> and \<open>rmdir\<close>: the last piece of \<open>path.split('/')\<close> is the
  name, the rest joined again is the parent path, and an empty parent path means the
  current directory.
\<close>

definition target_name :: "string \<Rightarrow> string" where
  "target_name path = last (split CHR ''/'' path)"

definition parent_path :: "string \<Rightarrow> string" where
  "parent_path path = join ''/'' (butlast (split CHR ''/'' path))"

definition target_parent :: "FileSystem \<Rightarrow> string \<Rightarrow> ref option" where
  "target_parent fs path =
     (if parent_path path \<noteq> [] then resolvePath fs (Some (parent_path path))
      else Some (currentDir fs))"

definition unlink :: "FileSystem \<Rightarrow> ref \<Rightarrow> string \<Rightarrow> FileSystem" where
  "unlink fs p nm =
     fs\<lparr>heap := (heap fs)[p := (heap fs ! p)\<lparr>children := map_delete (children (heap fs ! p)) nm\<rparr>]\<rparr>"

text \<open>
  In \<open>rm\<close> the child is read with \<open>get\<close> only after \<open>has\<close> has answered yes, so the
  \<open>None\<close> branch of the lookup below is never taken.
\<close>

definition rm :: "FileSystem \<Rightarrow> string option \<Rightarrow> FileSystem \<times> string" where
  "rm fs path =
     (if falsy path then (fs, ''rm: missing operand'')
      else (let p = js_str path in
            case target_parent fs p of
              None \<Rightarrow> (fs, ''rm: '' @ p @ '': No such file or directory'')
            | Some par \<Rightarrow>
                if \<not> map_has (children (heap fs ! par)) (target_name p)
                then (fs, ''rm: '' @ p @ '': No such file or directory'')
                else (case map_get (children (heap fs ! par)) (target_name p) of
                        None \<Rightarrow> (fs, ''rm: '' @ p @ '': No such file or directory'')
                      | Some target \<Rightarrow>
                          if type (heap fs ! target) = Directory
                          then (fs, ''rm: '' @ p @ '': Is a directory'')
                          else (unlink fs par (target_name p), []))))"

definition rmdir :: "FileSystem \<Rightarrow> string option \<Rightarrow> FileSystem \<times> string" where
  "rmdir fs path =
     (if falsy path then (fs, ''rm: missing operand'')
      else (let p = js_str path in
            case target_parent fs p of
              None \<Rightarrow> (fs, ''rm: '' @ p @ '': No such file or directory'')
            | Some par \<Rightarrow>
                if \<not> map_has (children (heap fs ! par)) (target_name p)
                then (fs, ''rm: '' @ p @ '': No such file or directory'')
                else (unlink fs par (target_name p), [])))"

section \<open>The reduced implementation in \<open>src/lib/fileSystem.js\<close>\<close>

text \<open>
  The second \<open>FileSystem\<close> class has nodes without a parent reference, whose content is
  \<open>null\<close> until a file is seeded. Its methods call \<open>path.split\<close> without a test, so an
  omitted path throws a \<open>TypeError\<close>.
\<close>

datatype js_error = TypeError

record lib_FileSystemNode =
  lib_name :: string
  lib_type :: node_type
  lib_children :: children_map
  lib_content :: "string option"

definition lib_new_node :: "string \<Rightarrow> node_type \<Rightarrow> lib_FileSystemNode" where
  "lib_new_node nm ty = \<lparr>lib_name = nm, lib_type = ty, lib_children = [], lib_content = None\<rparr>"

definition isDirectory :: "lib_FileSystemNode \<Rightarrow> bool" where
  "isDirectory n = (lib_type n = Directory)"

definition isFile :: "lib_FileSystemNode \<Rightarrow> bool" where
  "isFile n = (lib_type n = File)"

record lib_FileSystem =
  lib_heap :: "lib_FileSystemNode list"
  lib_root :: ref
  lib_currentDir :: ref

definition lib_new_FileSystem :: lib_FileSystem where
  "lib_new_FileSystem =
     \<lparr>lib_heap = [lib_new_node ''/'' Directory], lib_root = 0, lib_currentDir = 0\<rparr>"

text \<open>The loop of the reduced \<open>resolvePath\<close>: a segment met at a file is passed over.\<close>

fun lib_resolve_loop :: "lib_FileSystemNode list \<Rightarrow> ref \<Rightarrow> string list \<Rightarrow> ref option" where
  "lib_resolve_loop h target [] = Some target"
| "lib_resolve_loop h target (part # parts) =
     (if isDirectory (h ! target)
      then (case map_get (lib_children (h ! target)) part of
              None \<Rightarrow> None
            | Some t \<Rightarrow> lib_resolve_loop h t parts)
      else lib_resolve_loop h target parts)"

definition lib_resolvePath :: "lib_FileSystem \<Rightarrow> string option \<Rightarrow> js_error + ref option" where
  "lib_resolvePath fs path =
     (case path of
        None \<Rightarrow> Inl TypeError
      | Some p \<Rightarrow> Inr (lib_resolve_loop (lib_heap fs) (lib_currentDir fs) (segments p)))"

definition lib_cd :: "lib_FileSystem \<Rightarrow> string option \<Rightarrow> js_error + (lib_FileSystem \<times> bool)" where
  "lib_cd fs path =
     (case lib_resolvePath fs path of
        Inl e \<Rightarrow> Inl e
      | Inr None \<Rightarrow> Inr (fs, False)
      | Inr (Some target) \<Rightarrow>
          if isDirectory (lib_heap fs ! target)
          then Inr (fs\<lparr>lib_currentDir := target\<rparr>, True)
          else Inr (fs, False))"

definition lib_ls :: "lib_FileSystem \<Rightarrow> string list" where
  "lib_ls fs = map_keys (lib_children (lib_heap fs ! lib_currentDir fs))"

definition lib_pwd :: "lib_FileSystem \<Rightarrow> string" where
  "lib_pwd fs = lib_name (lib_heap fs ! lib_currentDir fs)"

function buildStructure ::
  "lib_FileSystemNode list \<Rightarrow> ref \<Rightarrow> (string \<times> seed) list \<Rightarrow> lib_FileSystemNode list" where
  "buildStructure h par [] = h"
| "buildStructure h par ((nm, v) # rest) =
     (let node = length h;
          h1 = h @ [lib_new_node nm (case v of SFile _ \<Rightarrow> File | SDir _ \<Rightarrow> Directory)];
          h2 = (case v of
                  SDir sub \<Rightarrow> buildStructure h1 node sub
                | SFile c \<Rightarrow> h1[node := (h1 ! node)\<lparr>lib_content := Some c\<rparr>]);
          h3 = h2[par := (h2 ! par)\<lparr>lib_children := map_set (lib_children (h2 ! par)) nm node\<rparr>]
      in buildStructure h3 par rest)"
  by pat_completeness auto
termination
  by (relation "measure (\<lambda>(h, p, es). size_list (size_prod (\<lambda>_. 0) size) es)") auto

definition lib_initializeDefaultStructure ::
  "lib_FileSystem \<Rightarrow> (string \<times> seed) list \<Rightarrow> lib_FileSystem" where
  "lib_initializeDefaultStructure fs structure =
     fs\<lparr>lib_heap := buildStructure (lib_heap fs) (lib_root fs) structure\<rparr>"

definition initialStructure :: "(string \<times> seed) list" where
  "initialStructure =
    [(''thecmdchallenge'', SDir
      [(''home'', SDir
        [(''user'', SDir
          [(''documents'', SDir
             [(''file1.txt'', SFile ''contenido del archivo 1''),
              (''file2.txt'', SFile ''contenido del archivo 2'')]),
           (''downloads'', SDir [])])])])]"

text \<open>The instance \<open>fs\<close> that the module builds and seeds before it runs its commands.\<close>

definition lib_fs :: lib_FileSystem where
  "lib_fs = lib_initializeDefaultStructure lib_new_FileSystem initialStructure"

section \<open>Invariants of the store\<close>

text \<open>
  What the constructors and operations maintain for the node at reference \<open>i\<close>: the keys of
  its children are distinct (it is a \<open>Map\<close>), every child is an object of the store whose
  parent reference is \<open>i\<close> and whose name is its key, and a parent was allocated before
  its child.
\<close>

definition node_ok :: "FileSystemNode list \<Rightarrow> ref \<Rightarrow> bool" where
  "node_ok h i =
     (distinct (map fst (children (h ! i)))
      \<and> (\<forall>e \<in> set (children (h ! i)).
            snd e < length h \<and> parent (h ! snd e) = Some i \<and> name (h ! snd e) = fst e)
      \<and> (case parent (h ! i) of None \<Rightarrow> True | Some p \<Rightarrow> p < i))"

definition heap_ok :: "FileSystemNode list \<Rightarrow> bool" where
  "heap_ok h = (\<forall>i \<in> set [0..<length h]. node_ok h i)"

text \<open>Only the root has no parent.\<close>

definition rooted :: "FileSystemNode list \<Rightarrow> ref \<Rightarrow> bool" where
  "rooted h r = (\<forall>i \<in> set [0..<length h]. parent (h ! i) = None \<longrightarrow> i = r)"

definition well_formed :: "FileSystem \<Rightarrow> bool" where
  "well_formed fs =
     (heap_ok (heap fs) \<and> rooted (heap fs) (root fs)
      \<and> root fs < length (heap fs) \<and> currentDir fs < length (heap fs)
      \<and> parent (heap fs ! root fs) = None
      \<and> type (heap fs ! root fs) = Directory
      \<and> type (heap fs ! currentDir fs) = Directory)"

text \<open>Reachability through the children mappings.\<close>

inductive reach :: "FileSystemNode list \<Rightarrow> ref \<Rightarrow> ref \<Rightarrow> bool" for h :: "FileSystemNode list" and a :: ref where
  reach_self: "reach h a a"
| reach_child: "reach h a b \<Longrightarrow> b < length h \<Longrightarrow> (k, c) \<in> set (children (h ! b)) \<Longrightarrow> reach h a c"

text \<open>Following children by their keys, with no special segment.\<close>

fun descend :: "FileSystemNode list \<Rightarrow> ref \<Rightarrow> string list \<Rightarrow> ref option" where
  "descend h a [] = Some a"
| "descend h a (n # ns) =
     (case map_get (children (h ! a)) n of None \<Rightarrow> None | Some c \<Rightarrow> descend h c ns)"

text \<open>The node at which \<open>resolvePath\<close> starts its walk.\<close>

definition start_node :: "FileSystem \<Rightarrow> string \<Rightarrow> ref" where
  "start_node fs p = (if startsWith p CHR ''/'' then root fs else currentDir fs)"

text \<open>The cursor is attached: a directory that the root reaches.\<close>

definition attached :: "FileSystem \<Rightarrow> bool" where
  "attached fs =
     (type (heap fs ! currentDir fs) = Directory
      \<and> reach (heap fs) (root fs) (currentDir fs))"

text \<open>The cursor is a directory of the store, attached or not.\<close>

definition cursor_is_directory :: "FileSystem \<Rightarrow> bool" where
  "cursor_is_directory fs =
     (currentDir fs < length (heap fs) \<and> type (heap fs ! currentDir fs) = Directory)"

text \<open>No file node has an entry in its children.\<close>

definition files_empty :: "FileSystemNode list \<Rightarrow> bool" where
  "files_empty h = (\<forall>i \<in> set [0..<length h]. type (h ! i) = File \<longrightarrow> children (h ! i) = [])"

text \<open>A normalized absolute path: \<open>/\<close> before each of its names, which are neither empty nor
  \<open>.\<close> nor \<open>..\<close> and contain no \<open>/\<close>.\<close>

definition plain_name :: "string \<Rightarrow> bool" where
  "plain_name seg = (seg \<noteq> [] \<and> CHR ''/'' \<notin> set seg \<and> seg \<noteq> ''.'' \<and> seg \<noteq> ''..'')"

definition absolute :: "string list \<Rightarrow> string" where
  "absolute names = concat (map (\<lambda>seg. CHR ''/'' # seg) names)"

section \<open>The removal operations as the specification words them\<close>

datatype status = Success | MissingOperand | NotFound | IsADirectory

text \<open>The last segment of a path is what follows its last \<open>/\<close>; the prefix is what precedes it.\<close>

definition last_segment :: "string \<Rightarrow> string" where
  "last_segment path = rev (takeWhile (\<lambda>c. c \<noteq> CHR ''/'') (rev path))"

definition prefix_of :: "string \<Rightarrow> string" where
  "prefix_of path = rev (drop 1 (dropWhile (\<lambda>c. c \<noteq> CHR ''/'') (rev path)))"

definition parent_of :: "FileSystem \<Rightarrow> string \<Rightarrow> ref option" where
  "parent_of fs path =
     (if prefix_of path = [] then Some (currentDir fs) else resolvePath fs (Some (prefix_of path)))"

definition without_child :: "FileSystem \<Rightarrow> ref \<Rightarrow> string \<Rightarrow> FileSystem" where
  "without_child fs par nm =
     fs\<lparr>heap := (heap fs)[par := (heap fs ! par)
                    \<lparr>children := filter (\<lambda>e. fst e \<noteq> nm) (children (heap fs ! par))\<rparr>]\<rparr>"

definition removeFile :: "FileSystem \<Rightarrow> string option \<Rightarrow> FileSystem \<times> status" where
  "removeFile fs path =
     (case path of
        None \<Rightarrow> (fs, MissingOperand)
      | Some p \<Rightarrow>
          if p = [] then (fs, MissingOperand)
          else (case parent_of fs p of
                  None \<Rightarrow> (fs, NotFound)
                | Some par \<Rightarrow>
                    (case map_of (children (heap fs ! par)) (last_segment p) of
                       None \<Rightarrow> (fs, NotFound)
                     | Some child \<Rightarrow>
                         if type (heap fs ! child) = Directory then (fs, IsADirectory)
                         else (without_child fs par (last_segment p), Success))))"

text \<open>The status strings of \<open>rm\<close>, by kind.\<close>

definition rm_message :: "string \<Rightarrow> status \<Rightarrow> string" where
  "rm_message p st =
     (case st of
        Success \<Rightarrow> []
      | MissingOperand \<Rightarrow> ''rm: missing operand''
      | NotFound \<Rightarrow> ''rm: '' @ p @ '': No such file or directory''
      | IsADirectory \<Rightarrow> ''rm: '' @ p @ '': Is a directory'')"

section \<open>Concrete states\<close>

text \<open>The seeded file system after \<open>cd thecmdchallenge\<close>, and after going on to \<open>funcode/images\<close>.\<close>

definition fs_challenge :: FileSystem where
  "fs_challenge = fst (cd new_FileSystem (Some ''thecmdchallenge''))"

definition fs_images :: FileSystem where
  "fs_images = fst (cd fs_challenge (Some ''funcode/images''))"

text \<open>The state after \<open>rmdir('../../funcode')\<close> in \<open>funcode/images\<close>.\<close>

definition fs_detached :: FileSystem where
  "fs_detached = fst (rmdir fs_images (Some ''../../funcode''))"

text \<open>The module's instance after its own \<open>fs.cd('thecmdchallenge')\<close>.\<close>

definition lib_fs_cd :: lib_FileSystem where
  "lib_fs_cd =
     (case lib_cd lib_fs (Some ''thecmdchallenge'') of Inr (fs, ok) \<Rightarrow> fs | Inl e \<Rightarrow> lib_fs)"

section \<open>Basic facts\<close>

subsection \<open>Strings\<close>

lemma split_not_Nil [simp]: "split c s \<noteq> []"
  by (induction s) (auto split: list.splits)

lemma join_Cons: "ps \<noteq> [] \<Longrightarrow> join sep (p # ps) = p @ sep @ join sep ps"
  by (cases ps) auto

lemma join_split: "join [c] (split c s) = s"
proof (induction s)
  case Nil
  show ?case by simp
next
  case (Cons x xs)
  obtain w ws where sp: "split c xs = w # ws"
    by (cases "split c xs") auto
  show ?case
  proof (cases "x = c")
    case True
    then show ?thesis using Cons by (simp add: join_Cons)
  next
    case False
    then show ?thesis using Cons sp by (cases ws) auto
  qed
qed

lemma split_snoc:
  "split c (xs @ [x]) =
     (if x = c then split c xs @ [[]]
      else butlast (split c xs) @ [last (split c xs) @ [x]])"
proof (induction xs)
  case Nil
  show ?case by simp
next
  case (Cons y ys)
  obtain w ws where sp: "split c ys = w # ws"
    by (cases "split c ys") auto
  show ?case using Cons sp
    by (cases ws) (auto split: list.splits)
qed

lemma last_split: "last (split CHR ''/'' p) = last_segment p"
proof (induction p rule: rev_induct)
  case Nil
  show ?case by (simp add: last_segment_def)
next
  case (snoc x xs)
  then show ?case by (simp add: split_snoc last_segment_def)
qed

lemma butlast_split: "join ''/'' (butlast (split CHR ''/'' p)) = prefix_of p"
proof (induction p rule: rev_induct)
  case Nil
  show ?case by (simp add: prefix_of_def)
next
  case (snoc x xs)
  then show ?case by (simp add: split_snoc prefix_of_def join_split)
qed

subsection \<open>Maps\<close>

lemma map_has_iff: "map_has m k \<longleftrightarrow> k \<in> fst ` set m"
  by (simp add: map_has_def map_of_eq_None_iff)

lemma map_set_fresh: "\<not> map_has m k \<Longrightarrow> map_set m k v = m @ [(k, v)]"
  by (induction m) (auto simp: map_has_iff)

lemma map_get_fresh: "\<not> map_has m k \<Longrightarrow> map_get (map_set m k v) k' = (if k' = k then Some v else map_get m k')"
  by (auto simp: map_set_fresh map_get_def map_has_def map_add_def split: option.splits)

lemma map_get_in: "map_get m k = Some c \<Longrightarrow> (k, c) \<in> set m"
  by (simp add: map_get_def map_of_SomeD)

lemma in_map_get: "distinct (map fst m) \<Longrightarrow> (k, c) \<in> set m \<Longrightarrow> map_get m k = Some c"
  by (simp add: map_get_def)

lemma map_get_delete: "map_get (map_delete m k) k' = (if k' = k then None else map_get m k')"
  by (induction m) (auto simp: map_get_def map_delete_def)

subsection \<open>link_new\<close>

lemma length_link_new [simp]: "length (link_new h par nm ty c) = Suc (length h)"
  by (simp add: link_new_def Let_def)

lemma link_new_last:
  "par < length h \<Longrightarrow> link_new h par nm ty c ! length h = (new_node nm ty c)\<lparr>parent := Some par\<rparr>"
  by (simp add: link_new_def Let_def nth_append)

lemma link_new_old:
  "par < length h \<Longrightarrow> i < length h \<Longrightarrow>
   link_new h par nm ty c ! i =
     (if i = par then (h ! par)\<lparr>children := map_set (children (h ! par)) nm (length h)\<rparr> else h ! i)"
  by (simp add: link_new_def Let_def nth_append nth_list_update)

lemma link_new_fields:
  assumes "par < length h" "i < length h"
  shows "parent (link_new h par nm ty c ! i) = parent (h ! i)"
    and "name (link_new h par nm ty c ! i) = name (h ! i)"
    and "type (link_new h par nm ty c ! i) = type (h ! i)"
    and "content (link_new h par nm ty c ! i) = content (h ! i)"
  using assms by (simp_all add: link_new_old)

lemma link_new_children:
  assumes "par < length h" "i < length h" "\<not> map_has (children (h ! par)) nm"
  shows "children (link_new h par nm ty c ! i) =
           (if i = par then children (h ! par) @ [(nm, length h)] else children (h ! i))"
  using assms by (simp add: link_new_old map_set_fresh)

lemma heap_ok_iff: "heap_ok h \<longleftrightarrow> (\<forall>i<length h. node_ok h i)"
  by (auto simp: heap_ok_def)

lemma heap_ok_link_new:
  assumes ok: "heap_ok h" and par: "par < length h"
    and fresh: "\<not> map_has (children (h ! par)) nm"
  shows "heap_ok (link_new h par nm ty c)"
  unfolding heap_ok_iff
proof (intro allI impI)
  fix i
  let ?h = "link_new h par nm ty c"
  assume "i < length ?h"
  then consider "i = length h" | "i < length h" by (auto simp: less_Suc_eq)
  then show "node_ok ?h i"
  proof cases
    case 1
    then show ?thesis using par
      by (simp add: node_ok_def link_new_last new_node_def)
  next
    case 2
    with ok have nk: "node_ok h i" by (simp add: heap_ok_iff)
    have old: "\<And>e. e \<in> set (children (h ! i)) \<Longrightarrow>
        snd e < length h \<and> parent (?h ! snd e) = Some i \<and> name (?h ! snd e) = fst e"
      using nk par by (auto simp: node_ok_def link_new_fields)
    show ?thesis
    proof (cases "i = par")
      case True
      have "nm \<notin> fst ` set (children (h ! par))"
        using fresh by (simp add: map_has_iff)
      then show ?thesis using nk par old True fresh 2
        by (auto simp: node_ok_def link_new_children link_new_fields link_new_last new_node_def
            less_Suc_eq)
    next
      case False
      then show ?thesis using nk par old fresh 2
        by (auto simp: node_ok_def link_new_children link_new_fields less_Suc_eq)
    qed
  qed
qed

lemma rooted_iff: "rooted h r \<longleftrightarrow> (\<forall>i<length h. parent (h ! i) = None \<longrightarrow> i = r)"
  by (auto simp: rooted_def)

lemma rooted_link_new:
  assumes "rooted h r" "par < length h"
  shows "rooted (link_new h par nm ty c) r"
  unfolding rooted_iff
proof (intro allI impI)
  fix i
  assume i: "i < length (link_new h par nm ty c)" and n: "parent (link_new h par nm ty c ! i) = None"
  have "i \<noteq> length h" using n assms(2) by (auto simp: link_new_last)
  then have "i < length h" using i by simp
  then show "i = r" using n assms by (simp add: link_new_fields rooted_iff)
qed

subsection \<open>unlink\<close>

lemma unlink_heap:
  "heap (unlink fs p nm) =
     (heap fs)[p := (heap fs ! p)\<lparr>children := map_delete (children (heap fs ! p)) nm\<rparr>]"
  by (simp add: unlink_def)

lemma unlink_cursor [simp]:
  "root (unlink fs p nm) = root fs" "currentDir (unlink fs p nm) = currentDir fs"
  "length (heap (unlink fs p nm)) = length (heap fs)"
  by (simp_all add: unlink_def)

lemma update_children_nth:
  "h[p := (h ! p)\<lparr>children := m\<rparr>] ! i =
     (if i = p \<and> p < length h then (h ! p)\<lparr>children := m\<rparr> else h ! i)"
proof (cases "length h \<le> p")
  case True
  then show ?thesis by (simp add: list_update_beyond)
next
  case False
  then show ?thesis by (cases "i = p") simp_all
qed

lemma update_children_fields:
  "parent (h[p := (h ! p)\<lparr>children := m\<rparr>] ! i) = parent (h ! i)"
  "name (h[p := (h ! p)\<lparr>children := m\<rparr>] ! i) = name (h ! i)"
  "type (h[p := (h ! p)\<lparr>children := m\<rparr>] ! i) = type (h ! i)"
  "content (h[p := (h ! p)\<lparr>children := m\<rparr>] ! i) = content (h ! i)"
  by (simp_all add: update_children_nth)

lemma unlink_fields [simp]:
  "parent (heap (unlink fs p nm) ! i) = parent (heap fs ! i)"
  "name (heap (unlink fs p nm) ! i) = name (heap fs ! i)"
  "type (heap (unlink fs p nm) ! i) = type (heap fs ! i)"
  "content (heap (unlink fs p nm) ! i) = content (heap fs ! i)"
  by (simp_all add: unlink_def update_children_fields)

lemma unlink_children:
  "p < length (heap fs) \<Longrightarrow>
   children (heap (unlink fs p nm) ! i) =
     (if i = p then map_delete (children (heap fs ! p)) nm else children (heap fs ! i))"
  by (simp add: unlink_def update_children_nth)

lemma unlink_children_subset:
  "set (children (heap (unlink fs p nm) ! i)) \<subseteq> set (children (heap fs ! i))"
  by (auto simp: unlink_def update_children_nth map_delete_def)

lemma heap_ok_unlink:
  assumes "heap_ok (heap fs)"
  shows "heap_ok (heap (unlink fs p nm))"
proof (cases "length (heap fs) \<le> p")
  case True
  then show ?thesis using assms by (simp add: unlink_def list_update_beyond)
next
  case False
  then have True: "p < length (heap fs)" by simp
  show ?thesis
    unfolding heap_ok_iff
  proof (intro allI impI)
    fix i assume "i < length (heap (unlink fs p nm))"
    then have "node_ok (heap fs) i" using assms by (simp add: heap_ok_iff)
    then show "node_ok (heap (unlink fs p nm)) i"
      using True
      by (auto simp: node_ok_def unlink_children map_delete_def distinct_map_filter)
  qed
qed

lemma rooted_unlink: "rooted (heap fs) r \<Longrightarrow> rooted (heap (unlink fs p nm)) r"
  by (simp add: rooted_iff)

lemma without_child_eq: "without_child fs par nm = unlink fs par nm"
  by (simp add: without_child_def unlink_def map_delete_def)

subsection \<open>Children, parents and order\<close>

lemma child_facts:
  assumes "heap_ok h" "b < length h" "(k, c) \<in> set (children (h ! b))"
  shows "c < length h" "parent (h ! c) = Some b" "name (h ! c) = k" "b < c"
proof -
  have nb: "node_ok h b" using assms by (simp add: heap_ok_iff)
  with assms(3) show c: "c < length h" and p: "parent (h ! c) = Some b" and "name (h ! c) = k"
    by (auto simp: node_ok_def)
  from c assms(1) have "node_ok h c" by (simp add: heap_ok_iff)
  with p show "b < c" by (simp add: node_ok_def)
qed

lemma parent_less:
  "heap_ok h \<Longrightarrow> i < length h \<Longrightarrow> parent (h ! i) = Some p \<Longrightarrow> p < i"
  by (auto simp: heap_ok_iff node_ok_def)

lemma get_child_facts:
  assumes "heap_ok h" "b < length h" "map_get (children (h ! b)) k = Some c"
  shows "c < length h" "parent (h ! c) = Some b" "name (h ! c) = k" "b < c"
  using child_facts[OF assms(1,2) map_get_in[OF assms(3)]] by simp_all

subsection \<open>Reachability\<close>

lemma reach_bound: "reach h a b \<Longrightarrow> heap_ok h \<Longrightarrow> a < length h \<Longrightarrow> b < length h"
  by (induction rule: reach.induct) (auto dest: child_facts(1))

lemma reach_le: "reach h a b \<Longrightarrow> heap_ok h \<Longrightarrow> a \<le> b"
proof (induction rule: reach.induct)
  case reach_self
  show ?case by simp
next
  case (reach_child b k c)
  then have "b < c" by (auto dest: child_facts(4))
  with reach_child show ?case by simp
qed

lemma reach_parent:
  assumes "heap_ok h" "reach h a b" "b \<noteq> a"
  shows "\<exists>p. parent (h ! b) = Some p \<and> reach h a p"
  using assms(2,1,3)
  by (cases rule: reach.cases) (auto dest: child_facts(2))

lemma reach_tree:
  assumes ok: "heap_ok h"
  shows "reach h a d \<Longrightarrow> reach h b d \<Longrightarrow> reach h a b \<or> reach h b a"
proof (induction rule: reach.induct)
  case reach_self
  then show ?case by simp
next
  case (reach_child m k d)
  show ?case
  proof (cases "d = b")
    case True
    then show ?thesis using reach_child by (auto intro: reach.reach_child)
  next
    case False
    then obtain p where "parent (h ! d) = Some p" "reach h b p"
      using reach_parent[OF ok \<open>reach h b d\<close>] by auto
    moreover have "parent (h ! d) = Some m"
      using reach_child ok by (auto dest: child_facts(2))
    ultimately show ?thesis using reach_child by auto
  qed
qed

lemma reach_link_new:
  assumes "par < length h" "\<not> map_has (children (h ! par)) nm"
  shows "reach h a b \<Longrightarrow> reach (link_new h par nm ty c) a b"
proof (induction rule: reach.induct)
  case reach_self
  show ?case by (rule reach.reach_self)
next
  case (reach_child b k x)
  have "(k, x) \<in> set (children (link_new h par nm ty c ! b))"
    using reach_child assms by (auto simp: link_new_children)
  then show ?case using reach_child
    by (auto intro: reach.reach_child)
qed

lemma reach_unlink_keep:
  assumes ok: "heap_ok (heap fs)" and p: "p < length (heap fs)"
    and c: "map_get (children (heap fs ! p)) nm = Some c"
  shows "reach (heap fs) a b \<Longrightarrow> \<not> reach (heap fs) c b \<Longrightarrow> reach (heap (unlink fs p nm)) a b"
proof (induction rule: reach.induct)
  case reach_self
  show ?case by (rule reach.reach_self)
next
  case (reach_child m k x)
  have nm: "\<not> reach (heap fs) c m"
    using reach_child by (auto intro: reach.reach_child)
  have "k \<noteq> nm" if "m = p"
  proof
    assume "k = nm"
    have "distinct (map fst (children (heap fs ! p)))"
      using ok p by (simp add: heap_ok_iff node_ok_def)
    then have "map_get (children (heap fs ! p)) nm = Some x"
      using reach_child \<open>k = nm\<close> that by (simp add: in_map_get)
    with c have "x = c" by simp
    with reach_child show False by (auto intro: reach.reach_self)
  qed
  then have "(k, x) \<in> set (children (heap (unlink fs p nm) ! m))"
    using reach_child p by (auto simp: unlink_children map_delete_def)
  then show ?case using reach_child nm
    by (auto intro: reach.reach_child)
qed

lemma reach_unlink_subtree:
  assumes ok: "heap_ok (heap fs)" and p: "p < length (heap fs)"
    and c: "map_get (children (heap fs ! p)) nm = Some c"
  shows "reach (heap fs) c d \<Longrightarrow> reach (heap (unlink fs p nm)) c d"
proof (induction rule: reach.induct)
  case reach_self
  show ?case by (rule reach.reach_self)
next
  case (reach_child m k x)
  have "p < c" using get_child_facts(4)[OF ok p c] .
  moreover have "c \<le> m" using reach_le[OF \<open>reach (heap fs) c m\<close> ok] .
  ultimately have "m \<noteq> p" by simp
  then have "(k, x) \<in> set (children (heap (unlink fs p nm) ! m))"
    using reach_child p by (simp add: unlink_children)
  then show ?case using reach_child by (auto intro: reach.reach_child)
qed

lemma unlink_no_parent:
  assumes ok: "heap_ok (heap fs)" and p: "p < length (heap fs)"
    and c: "map_get (children (heap fs ! p)) nm = Some c"
    and i: "i < length (heap fs)"
  shows "(k, c) \<notin> set (children (heap (unlink fs p nm) ! i))"
proof
  assume a: "(k, c) \<in> set (children (heap (unlink fs p nm) ! i))"
  then have old: "(k, c) \<in> set (children (heap fs ! i))"
    using unlink_children_subset by blast
  have "parent (heap fs ! c) = Some i" "name (heap fs ! c) = k"
    using child_facts[OF ok i old] by simp_all
  moreover have "parent (heap fs ! c) = Some p" "name (heap fs ! c) = nm"
    using get_child_facts[OF ok p c] by simp_all
  ultimately have "i = p" "k = nm" by simp_all
  with a p show False by (simp add: unlink_children map_delete_def)
qed

lemma unlink_detaches:
  assumes ok: "heap_ok (heap fs)" and p: "p < length (heap fs)"
    and c: "map_get (children (heap fs ! p)) nm = Some c"
    and r: "parent (heap fs ! r) = None"
    and d: "reach (heap fs) c d"
  shows "\<not> reach (heap (unlink fs p nm)) r d"
proof
  let ?h = "heap (unlink fs p nm)"
  assume rd: "reach ?h r d"
  have ok': "heap_ok ?h" using ok by (rule heap_ok_unlink)
  have cd: "reach ?h c d" using reach_unlink_subtree[OF ok p c d] .
  have pc: "parent (heap fs ! c) = Some p" using get_child_facts(2)[OF ok p c] .
  with r have ne: "c \<noteq> r" by auto
  from reach_tree[OF ok' rd cd] show False
  proof
    assume "reach ?h r c"
    then show False
    proof (cases rule: reach.cases)
      case reach_self
      with ne show False by simp
    next
      case (reach_child b k)
      then show False using unlink_no_parent[OF ok p c, of b k] by simp
    qed
  next
    assume "reach ?h c r"
    then obtain q where "parent (?h ! r) = Some q"
      using reach_parent[OF ok', of c r] ne by auto
    with r show False by simp
  qed
qed

subsection \<open>Resolution stays inside the store\<close>

lemma up_bound:
  "heap_ok h \<Longrightarrow> cur < length h \<Longrightarrow>
   (case parent (h ! cur) of None \<Rightarrow> cur | Some p \<Rightarrow> p) < length h"
  by (auto split: option.splits dest: parent_less)

lemma resolve_loop_bound:
  "heap_ok h \<Longrightarrow> cur < length h \<Longrightarrow> resolve_loop h cur parts = Some t \<Longrightarrow> t < length h"
proof (induction parts arbitrary: cur)
  case Nil
  then show ?case by simp
next
  case (Cons part parts)
  show ?case
  proof (cases "part = ''..''")
    case True
    then have "resolve_loop h (case parent (h ! cur) of None \<Rightarrow> cur | Some p \<Rightarrow> p) parts = Some t"
      using Cons.prems(3) by simp
    then show ?thesis using Cons.IH Cons.prems(1,2) up_bound by blast
  next
    case False
    show ?thesis
    proof (cases "part = ''.''")
      case True
      then have "resolve_loop h cur parts = Some t" using Cons.prems(3) by simp
      then show ?thesis using Cons.IH Cons.prems(1,2) by blast
    next
      case dot: False
      then obtain nx where nx: "map_get (children (h ! cur)) part = Some nx"
        and rest: "resolve_loop h nx parts = Some t"
        using Cons.prems(3) False by (auto split: option.splits)
      have "nx < length h"
        using get_child_facts(1)[OF Cons.prems(1,2) nx] .
      then show ?thesis using Cons.IH Cons.prems(1) rest by blast
    qed
  qed
qed

lemma resolve_loop_reach:
  assumes ok: "heap_ok h" and r: "parent (h ! r) = None"
  shows "reach h r cur \<Longrightarrow> cur < length h \<Longrightarrow> resolve_loop h cur parts = Some t \<Longrightarrow> reach h r t"
proof (induction parts arbitrary: cur)
  case Nil
  then show ?case by simp
next
  case (Cons part parts)
  show ?case
  proof (cases "part = ''..''")
    case True
    let ?up = "case parent (h ! cur) of None \<Rightarrow> cur | Some p \<Rightarrow> p"
    have "reach h r ?up"
    proof (cases "parent (h ! cur)")
      case None
      then show ?thesis using Cons.prems by simp
    next
      case (Some p)
      then have "cur \<noteq> r" using r by auto
      then show ?thesis using reach_parent[OF ok Cons.prems(1)] Some by auto
    qed
    moreover have "?up < length h"
      using Cons.prems(2) ok up_bound by blast
    moreover have "resolve_loop h ?up parts = Some t"
      using Cons.prems(3) True by simp
    ultimately show ?thesis using Cons.IH[of ?up] by blast
  next
    case False
    show ?thesis
    proof (cases "part = ''.''")
      case True
      then have "resolve_loop h cur parts = Some t" using Cons.prems(3) by simp
      then show ?thesis using Cons.IH Cons.prems(1,2) by blast
    next
      case dot: False
      then obtain nx where nx: "map_get (children (h ! cur)) part = Some nx"
        and rest: "resolve_loop h nx parts = Some t"
        using Cons.prems(3) False by (auto split: option.splits)
      have "reach h r nx"
        using Cons.prems(1,2) map_get_in[OF nx] by (auto intro: reach.reach_child)
      moreover have "nx < length h"
        using get_child_facts(1)[OF ok Cons.prems(2) nx] .
      ultimately show ?thesis using Cons.IH rest by blast
    qed
  qed
qed

subsection \<open>The operations keep the store well formed\<close>

lemma resolvePath_bound:
  assumes "well_formed fs" "resolvePath fs path = Some t"
  shows "t < length (heap fs)"
proof (cases "falsy path")
  case True
  then show ?thesis using assms by (simp add: resolvePath_def well_formed_def)
next
  case False
  let ?start = "if startsWith (js_str path) CHR ''/'' then root fs else currentDir fs"
  have "?start < length (heap fs)" using assms(1) by (simp add: well_formed_def)
  moreover have "resolve_loop (heap fs) ?start (segments (js_str path)) = Some t"
    using assms(2) False by (simp add: resolvePath_def)
  ultimately show ?thesis using assms(1) resolve_loop_bound
    unfolding well_formed_def by blast
qed

lemma well_formed_cd_to:
  "well_formed fs \<Longrightarrow> t < length (heap fs) \<Longrightarrow> type (heap fs ! t) = Directory \<Longrightarrow>
   well_formed (fs\<lparr>currentDir := t\<rparr>)"
  by (simp add: well_formed_def)

lemma cd_cases:
  "cd fs path = (fs\<lparr>currentDir := root fs\<rparr>, []) \<and> path = Some ''/''
   \<or> cd fs path = (fs, ''cd: '' @ js_str path @ '': No such directory'')
       \<and> path \<noteq> Some ''/'' \<and> resolvePath fs path = None
   \<or> (\<exists>t. cd fs path = (fs, ''cd: '' @ js_str path @ '': Not a directory'')
       \<and> path \<noteq> Some ''/'' \<and> resolvePath fs path = Some t \<and> type (heap fs ! t) \<noteq> Directory)
   \<or> (\<exists>t. cd fs path = (fs\<lparr>currentDir := t\<rparr>, [])
       \<and> path \<noteq> Some ''/'' \<and> resolvePath fs path = Some t \<and> type (heap fs ! t) = Directory)"
  by (cases "resolvePath fs path") (simp_all add: cd_def)

lemma well_formed_cd: "well_formed fs \<Longrightarrow> well_formed (fst (cd fs path))"
  using cd_cases[of fs path]
  by (auto simp: well_formed_cd_to resolvePath_bound) (simp add: well_formed_def)

lemma well_formed_link_new:
  assumes wf: "well_formed fs" and par: "par < length (heap fs)"
    and fresh: "\<not> map_has (children (heap fs ! par)) nm"
  shows "well_formed (fs\<lparr>heap := link_new (heap fs) par nm ty c\<rparr>)"
proof -
  have "heap_ok (link_new (heap fs) par nm ty c)"
    using wf par fresh by (simp add: well_formed_def heap_ok_link_new)
  moreover have "rooted (link_new (heap fs) par nm ty c) (root fs)"
    using wf par by (simp add: well_formed_def rooted_link_new)
  ultimately show ?thesis using wf par
    by (simp add: well_formed_def link_new_fields)
qed

lemma well_formed_add:
  assumes "well_formed fs" "\<not> map_has (children (heap fs ! currentDir fs)) nm"
  shows "well_formed (fs\<lparr>heap := link_new (heap fs) (currentDir fs) nm ty c\<rparr>)"
proof -
  have "currentDir fs < length (heap fs)" using assms(1) by (simp add: well_formed_def)
  with assms show ?thesis by (simp add: well_formed_link_new)
qed

lemma well_formed_mkdir: "well_formed fs \<Longrightarrow> well_formed (fst (mkdir fs nm))"
  by (cases "map_has (children (heap fs ! currentDir fs)) nm")
     (simp_all add: mkdir_def well_formed_add)

lemma well_formed_touch: "well_formed fs \<Longrightarrow> well_formed (fst (touch fs nm))"
  by (cases "map_has (children (heap fs ! currentDir fs)) nm")
     (simp_all add: touch_def well_formed_add)

lemma well_formed_unlink: "well_formed fs \<Longrightarrow> well_formed (unlink fs p nm)"
  by (simp add: well_formed_def heap_ok_unlink rooted_unlink)

lemma rmdir_cases:
  "rmdir fs path = (fs, ''rm: missing operand'') \<and> falsy path
   \<or> rmdir fs path = (fs, ''rm: '' @ js_str path @ '': No such file or directory'')
      \<and> \<not> falsy path
      \<and> (target_parent fs (js_str path) = None
          \<or> (\<exists>par. target_parent fs (js_str path) = Some par
                \<and> map_get (children (heap fs ! par)) (target_name (js_str path)) = None))
   \<or> (\<exists>par child. rmdir fs path = (unlink fs par (target_name (js_str path)), [])
        \<and> \<not> falsy path
        \<and> target_parent fs (js_str path) = Some par
        \<and> map_get (children (heap fs ! par)) (target_name (js_str path)) = Some child)"
  by (cases "target_parent fs (js_str path)")
     (auto simp: rmdir_def Let_def map_has_def map_get_def)

lemma well_formed_rmdir: "well_formed fs \<Longrightarrow> well_formed (fst (rmdir fs path))"
  using rmdir_cases[of fs path] by (auto simp: well_formed_unlink)

lemma target_parent_eq: "target_parent fs p = parent_of fs p"
  by (simp add: target_parent_def parent_of_def parent_path_def butlast_split)

lemma target_name_eq: "target_name p = last_segment p"
  by (simp add: target_name_def last_split)

lemma target_parent_bound:
  "well_formed fs \<Longrightarrow> target_parent fs p = Some par \<Longrightarrow> par < length (heap fs)"
  by (auto simp: target_parent_def resolvePath_bound split: if_splits) (simp add: well_formed_def)

lemma rm_removeFile:
  "rm fs path = (fst (removeFile fs path), rm_message (js_str path) (snd (removeFile fs path)))"
proof (cases path)
  case None
  then show ?thesis by (simp add: rm_def removeFile_def falsy_def rm_message_def)
next
  case (Some p)
  note defs = rm_def removeFile_def falsy_def rm_message_def js_str_def target_parent_eq
    target_name_eq map_has_def map_get_def without_child_eq
  show ?thesis
  proof (cases "p = []")
    case True
    then show ?thesis using Some by (simp add: defs)
  next
    case False
    show ?thesis
    proof (cases "parent_of fs p")
      case None
      then show ?thesis using Some False by (simp add: defs)
    next
      case par: (Some par)
      show ?thesis
      proof (cases "map_of (children (heap fs ! par)) (last_segment p)")
        case None
        then show ?thesis using Some False par by (simp add: defs)
      next
        case child: (Some child)
        then show ?thesis using Some False par
          by (cases "type (heap fs ! child)") (simp_all add: defs)
      qed
    qed
  qed
qed

lemma removeFile_state:
  "fst (removeFile fs path) = fs
   \<or> (\<exists>par. snd (removeFile fs path) = Success
          \<and> fst (removeFile fs path) = unlink fs par (last_segment (js_str path)))"
  by (auto simp: removeFile_def without_child_eq js_str_def split: option.splits)

lemma well_formed_rm: "well_formed fs \<Longrightarrow> well_formed (fst (rm fs path))"
  using removeFile_state[of fs path] by (auto simp: rm_removeFile well_formed_unlink)

section \<open>The complete implementation: removal and the cursor\<close>

subsection \<open>The cursor under the operations\<close>

lemma resolvePath_reach:
  assumes wf: "well_formed fs" and at: "reach (heap fs) (root fs) (currentDir fs)"
    and res: "resolvePath fs path = Some t"
  shows "reach (heap fs) (root fs) t"
proof (cases "falsy path")
  case True
  then show ?thesis using at res by (simp add: resolvePath_def)
next
  case False
  let ?start = "if startsWith (js_str path) CHR ''/'' then root fs else currentDir fs"
  have ok: "heap_ok (heap fs)" and r: "parent (heap fs ! root fs) = None"
    using wf by (simp_all add: well_formed_def)
  have "reach (heap fs) (root fs) ?start" using at by (simp add: reach_self)
  moreover have "?start < length (heap fs)" using wf by (simp add: well_formed_def)
  moreover have "resolve_loop (heap fs) ?start (segments (js_str path)) = Some t"
    using res False by (simp add: resolvePath_def)
  ultimately show ?thesis using resolve_loop_reach[OF ok r] by blast
qed

lemma attached_cd:
  assumes "well_formed fs" "attached fs"
  shows "attached (fst (cd fs path))"
proof -
  have r: "reach (heap fs) (root fs) (currentDir fs)" using assms(2) by (simp add: attached_def)
  have rt: "type (heap fs ! root fs) = Directory" using assms(1) by (simp add: well_formed_def)
  from cd_cases[of fs path] show ?thesis
    using assms(2) rt resolvePath_reach[OF assms(1) r]
    by (auto simp: attached_def reach_self)
qed

lemma attached_add:
  assumes wf: "well_formed fs" and at: "attached fs"
    and fresh: "\<not> map_has (children (heap fs ! currentDir fs)) nm"
  shows "attached (fs\<lparr>heap := link_new (heap fs) (currentDir fs) nm ty c\<rparr>)"
proof -
  have cur: "currentDir fs < length (heap fs)" using wf by (simp add: well_formed_def)
  have "reach (link_new (heap fs) (currentDir fs) nm ty c) (root fs) (currentDir fs)"
    using reach_link_new[OF cur fresh] at by (simp add: attached_def)
  then show ?thesis using at cur by (simp add: attached_def link_new_fields)
qed

lemma attached_mkdir: "well_formed fs \<Longrightarrow> attached fs \<Longrightarrow> attached (fst (mkdir fs nm))"
  by (cases "map_has (children (heap fs ! currentDir fs)) nm")
     (simp_all add: mkdir_def attached_add)

lemma attached_touch: "well_formed fs \<Longrightarrow> attached fs \<Longrightarrow> attached (fst (touch fs nm))"
  by (cases "map_has (children (heap fs ! currentDir fs)) nm")
     (simp_all add: touch_def attached_add)

lemma mkdirp_loop_Cons:
  "mkdirp_loop h (Some cur) (part # parts) =
     mkdirp_loop (mkdirp_step h cur part)
       (map_get (children (mkdirp_step h cur part ! cur)) part) parts"
  by (simp add: Let_def)

lemma mkdirp_step_facts:
  assumes ok: "heap_ok h" and cur: "cur < length h"
  shows "heap_ok (mkdirp_step h cur part)"
    and "length h \<le> length (mkdirp_step h cur part)"
    and "\<And>i. i < length h \<Longrightarrow> parent (mkdirp_step h cur part ! i) = parent (h ! i)"
    and "\<And>i. i < length h \<Longrightarrow> type (mkdirp_step h cur part ! i) = type (h ! i)"
    and "\<And>a b. reach h a b \<Longrightarrow> reach (mkdirp_step h cur part) a b"
    and "\<exists>c. map_get (children (mkdirp_step h cur part ! cur)) part = Some c
             \<and> c < length (mkdirp_step h cur part)"
    and "\<And>r. rooted h r \<Longrightarrow> rooted (mkdirp_step h cur part) r"
proof -
  show "\<And>r. rooted h r \<Longrightarrow> rooted (mkdirp_step h cur part) r"
    using cur by (simp add: mkdirp_step_def rooted_link_new)
  show "heap_ok (mkdirp_step h cur part)"
    using ok cur by (simp add: mkdirp_step_def heap_ok_link_new)
  show "length h \<le> length (mkdirp_step h cur part)"
    by (simp add: mkdirp_step_def)
  show "\<And>i. i < length h \<Longrightarrow> parent (mkdirp_step h cur part ! i) = parent (h ! i)"
    using cur by (simp add: mkdirp_step_def link_new_fields)
  show "\<And>i. i < length h \<Longrightarrow> type (mkdirp_step h cur part ! i) = type (h ! i)"
    using cur by (simp add: mkdirp_step_def link_new_fields)
  show "\<And>a b. reach h a b \<Longrightarrow> reach (mkdirp_step h cur part) a b"
    using cur by (simp add: mkdirp_step_def reach_link_new)
  show "\<exists>c. map_get (children (mkdirp_step h cur part ! cur)) part = Some c
             \<and> c < length (mkdirp_step h cur part)"
  proof (cases "map_has (children (h ! cur)) part")
    case True
    then obtain c where c: "map_get (children (h ! cur)) part = Some c"
      by (auto simp: map_has_def map_get_def)
    then have "c < length h" using get_child_facts(1)[OF ok cur] by simp
    then show ?thesis using True c by (simp add: mkdirp_step_def)
  next
    case False
    then show ?thesis using cur
      by (simp add: mkdirp_step_def link_new_old map_get_fresh)
  qed
qed

lemma mkdirp_loop_ok:
  "heap_ok h \<Longrightarrow> cur < length h \<Longrightarrow>
   \<exists>h'. mkdirp_loop h (Some cur) parts = Some h' \<and> heap_ok h' \<and> length h \<le> length h'
      \<and> (\<forall>i<length h. parent (h' ! i) = parent (h ! i) \<and> type (h' ! i) = type (h ! i))
      \<and> (\<forall>a b. reach h a b \<longrightarrow> reach h' a b)
      \<and> (\<forall>r. rooted h r \<longrightarrow> rooted h' r)"
proof (induction parts arbitrary: h cur)
  case Nil
  then show ?case by simp
next
  case (Cons part parts)
  let ?h1 = "mkdirp_step h cur part"
  note st = mkdirp_step_facts[OF Cons.prems, where part=part]
  obtain c where c: "map_get (children (?h1 ! cur)) part = Some c" "c < length ?h1"
    using st(6) by blast
  obtain h' where h': "mkdirp_loop ?h1 (Some c) parts = Some h'" "heap_ok h'"
    "length ?h1 \<le> length h'"
    "\<forall>i<length ?h1. parent (h' ! i) = parent (?h1 ! i) \<and> type (h' ! i) = type (?h1 ! i)"
    "\<forall>a b. reach ?h1 a b \<longrightarrow> reach h' a b"
    "\<forall>r. rooted ?h1 r \<longrightarrow> rooted h' r"
    using Cons.IH[OF st(1) c(2)] by blast
  have "mkdirp_loop h (Some cur) (part # parts) = Some h'"
    using c(1) h'(1) by (simp only: mkdirp_loop_Cons)
  moreover have "length h \<le> length h'" using st(2) h'(3) by simp
  moreover have "\<forall>i<length h. parent (h' ! i) = parent (h ! i) \<and> type (h' ! i) = type (h ! i)"
    using st(2,3,4) h'(4) by auto
  moreover have "\<forall>a b. reach h a b \<longrightarrow> reach h' a b"
    using st(5) h'(5) by blast
  moreover have "\<forall>r. rooted h r \<longrightarrow> rooted h' r"
    using st(7) h'(6) by blast
  ultimately show ?case using h'(2) by blast
qed

lemma mkdirp_total:
  assumes wf: "well_formed fs"
  shows "\<exists>fs'. mkdirp fs p = Some (fs', []) \<and> well_formed fs' \<and> (attached fs \<longrightarrow> attached fs')"
proof -
  have ok: "heap_ok (heap fs)" and cur: "currentDir fs < length (heap fs)"
    and rt: "root fs < length (heap fs)"
    using wf by (simp_all add: well_formed_def)
  obtain h' where h': "mkdirp_loop (heap fs) (Some (currentDir fs)) (segments p) = Some h'"
    "heap_ok h'" "length (heap fs) \<le> length h'"
    "\<forall>i<length (heap fs). parent (h' ! i) = parent (heap fs ! i) \<and> type (h' ! i) = type (heap fs ! i)"
    "\<forall>a b. reach (heap fs) a b \<longrightarrow> reach h' a b"
    "\<forall>r. rooted (heap fs) r \<longrightarrow> rooted h' r"
    using mkdirp_loop_ok[OF ok cur] by blast
  have "mkdirp fs p = Some (fs\<lparr>heap := h'\<rparr>, [])" using h'(1) by (simp add: mkdirp_def)
  moreover have "well_formed (fs\<lparr>heap := h'\<rparr>)"
    using wf h'(2,3,4,6) cur rt by (simp add: well_formed_def)
  moreover have "attached (fs\<lparr>heap := h'\<rparr>)" if "attached fs"
    using that h'(4,5) cur by (simp add: attached_def)
  ultimately show ?thesis by blast
qed

lemma attached_unlink:
  assumes wf: "well_formed fs" and at: "attached fs"
    and par: "target_parent fs p = Some par"
    and ch: "map_get (children (heap fs ! par)) nm = Some child"
    and out: "\<not> reach (heap fs) child (currentDir fs)"
  shows "attached (unlink fs par nm)"
proof -
  have ok: "heap_ok (heap fs)" using wf by (simp add: well_formed_def)
  have pl: "par < length (heap fs)" using target_parent_bound[OF wf par] .
  have "reach (heap (unlink fs par nm)) (root fs) (currentDir fs)"
    using reach_unlink_keep[OF ok pl ch _ out] at by (simp add: attached_def)
  then show ?thesis using at by (simp add: attached_def)
qed

lemma attached_rmdir:
  assumes "well_formed fs" "attached fs"
  shows "attached (fst (rmdir fs path))
         \<or> (\<exists>par child. parent_of fs (js_str path) = Some par
              \<and> map_get (children (heap fs ! par)) (last_segment (js_str path)) = Some child
              \<and> reach (heap fs) child (currentDir fs))"
  using rmdir_cases[of fs path] assms attached_unlink[OF assms]
  by (auto simp: target_parent_eq target_name_eq)

lemma attached_rm:
  assumes "well_formed fs" "attached fs"
  shows "attached (fst (rm fs path))
         \<or> (\<exists>par child. parent_of fs (js_str path) = Some par
              \<and> map_get (children (heap fs ! par)) (last_segment (js_str path)) = Some child
              \<and> reach (heap fs) child (currentDir fs))"
proof (cases "snd (removeFile fs path) = Success")
  case False
  then have "fst (rm fs path) = fs"
    using removeFile_state[of fs path] by (auto simp: rm_removeFile)
  then show ?thesis using assms by simp
next
  case True
  then obtain p par child where p: "path = Some p" "p \<noteq> []"
    and par: "parent_of fs p = Some par"
    and ch: "map_of (children (heap fs ! par)) (last_segment p) = Some child"
    and st: "fst (removeFile fs path) = without_child fs par (last_segment p)"
    by (auto simp: removeFile_def split: option.splits if_splits)
  show ?thesis
  proof (cases "reach (heap fs) child (currentDir fs)")
    case True
    then show ?thesis using p par ch by (auto simp: js_str_def map_get_def)
  next
    case False
    have "attached (unlink fs par (last_segment p))"
      using attached_unlink[OF assms, of p par "last_segment p" child] par ch False
      by (simp add: target_parent_eq map_get_def)
    then show ?thesis using st by (simp add: rm_removeFile without_child_eq)
  qed
qed

subsection \<open>Removal\<close>

lemma rmdir_success:
  assumes "\<not> falsy path" "parent_of fs (js_str path) = Some par"
    "map_get (children (heap fs ! par)) (last_segment (js_str path)) = Some child"
  shows "rmdir fs path = (unlink fs par (last_segment (js_str path)), [])"
  using assms by (simp add: rmdir_def Let_def target_parent_eq target_name_eq map_has_def map_get_def)

lemma parent_of_bound:
  "well_formed fs \<Longrightarrow> parent_of fs p = Some par \<Longrightarrow> par < length (heap fs)"
  using target_parent_bound by (simp add: target_parent_eq)

lemma unlink_removed:
  "par < length (heap fs) \<Longrightarrow> map_get (children (heap (unlink fs par nm) ! par)) nm = None"
  by (simp add: unlink_children map_get_delete)

lemma unlink_elsewhere: "i \<noteq> par \<Longrightarrow> heap (unlink fs par nm) ! i = heap fs ! i"
  by (simp add: unlink_def)




text \<open>
  C7 (removeDirectory). With the parent and the name found as \<open>rm\<close> finds them, \<open>rmdir\<close>
  removes the named child whenever it exists, without looking at its kind: on a file it does
  what \<open>rm\<close> does, and on a directory it succeeds where \<open>rm\<close> reports IsADirectory.
\<close>

theorem rmdir_any_kind:
  assumes "well_formed fs" and "\<not> falsy path"
    and "parent_of fs (js_str path) = Some par"
    and "map_get (children (heap fs ! par)) (last_segment (js_str path)) = Some child"
  shows "rmdir fs path = (without_child fs par (last_segment (js_str path)), [])
    \<and> map_get (children (heap (fst (rmdir fs path)) ! par)) (last_segment (js_str path)) = None
    \<and> (type (heap fs ! child) = File \<longrightarrow> rm fs path = rmdir fs path)
    \<and> (type (heap fs ! child) = Directory \<longrightarrow>
          rm fs path = (fs, rm_message (js_str path) IsADirectory))"
proof -
  have st: "rmdir fs path = (unlink fs par (last_segment (js_str path)), [])"
    using assms(2,3,4) by (rule rmdir_success)
  have pl: "par < length (heap fs)" using parent_of_bound assms(1,3) by blast
  obtain p where p: "path = Some p" "p \<noteq> []"
    using assms(2) by (cases path) (auto simp: falsy_def)
  have ch: "map_of (children (heap fs ! par)) (last_segment p) = Some child"
    using assms(4) p by (simp add: js_str_def map_get_def)
  have par: "parent_of fs p = Some par" using assms(3) p by (simp add: js_str_def)
  have "rm fs path = rmdir fs path" if "type (heap fs ! child) = File"
    using that p ch par st
    by (simp add: rm_removeFile removeFile_def rm_message_def without_child_eq js_str_def)
  moreover have "rm fs path = (fs, rm_message (js_str path) IsADirectory)"
    if "type (heap fs ! child) = Directory"
    using that p ch par by (simp add: rm_removeFile removeFile_def)
  ultimately show ?thesis
    using st pl by (simp add: without_child_eq unlink_removed)
qed

text \<open>
  C10 (no emptiness check). \<open>rmdir\<close> on a directory that has children succeeds at once;
  afterwards the directory is no longer a child of its parent, and it and everything below
  it, left as it was, can no longer be reached from the root.
\<close>

theorem rmdir_nonempty_directory:
  assumes "well_formed fs" and "\<not> falsy path"
    and "parent_of fs (js_str path) = Some par"
    and "map_get (children (heap fs ! par)) (last_segment (js_str path)) = Some child"
    and "type (heap fs ! child) = Directory"
    and "children (heap fs ! child) \<noteq> []"
  shows "rmdir fs path = (without_child fs par (last_segment (js_str path)), [])
    \<and> map_get (children (heap (fst (rmdir fs path)) ! par)) (last_segment (js_str path)) = None
    \<and> (\<forall>d. reach (heap fs) child d \<longrightarrow>
          \<not> reach (heap (fst (rmdir fs path))) (root (fst (rmdir fs path))) d
          \<and> heap (fst (rmdir fs path)) ! d = heap fs ! d)"
proof -
  let ?nm = "last_segment (js_str path)"
  have st: "rmdir fs path = (unlink fs par ?nm, [])"
    using assms(2,3,4) by (rule rmdir_success)
  have ok: "heap_ok (heap fs)" and r: "parent (heap fs ! root fs) = None"
    using assms(1) by (simp_all add: well_formed_def)
  have pl: "par < length (heap fs)" using parent_of_bound assms(1,3) by blast
  have "\<not> reach (heap (unlink fs par ?nm)) (root fs) d \<and> heap (unlink fs par ?nm) ! d = heap fs ! d"
    if d: "reach (heap fs) child d" for d
  proof
    show "\<not> reach (heap (unlink fs par ?nm)) (root fs) d"
      using unlink_detaches[OF ok pl assms(4) r d] .
    have "par < child" using get_child_facts(4)[OF ok pl assms(4)] .
    moreover have "child \<le> d" using reach_le[OF d ok] .
    ultimately have "d \<noteq> par" by simp
    then show "heap (unlink fs par ?nm) ! d = heap fs ! d" by (rule unlink_elsewhere)
  qed
  then show ?thesis using st pl by (simp add: without_child_eq unlink_removed)
qed

subsection \<open>Concrete facts\<close>

lemma well_formed_new: "well_formed new_FileSystem"
  by code_simp

lemma attached_new: "attached new_FileSystem"
proof -
  have "currentDir new_FileSystem = root new_FileSystem" by code_simp
  moreover have "type (heap new_FileSystem ! currentDir new_FileSystem) = Directory" by code_simp
  ultimately show ?thesis by (simp add: attached_def reach_self)
qed

lemma well_formed_challenge: "well_formed fs_challenge"
  unfolding fs_challenge_def using well_formed_new by (rule well_formed_cd)

lemma attached_challenge: "attached fs_challenge"
  unfolding fs_challenge_def using well_formed_new attached_new by (rule attached_cd)

lemma well_formed_images: "well_formed fs_images"
  unfolding fs_images_def using well_formed_challenge by (rule well_formed_cd)

lemma attached_images: "attached fs_images"
  unfolding fs_images_def using well_formed_challenge attached_challenge by (rule attached_cd)

lemma funcode_reaches_images: "reach (heap fs_images) 11 14"
proof -
  have "reach (heap fs_images) 11 11" by (rule reach_self)
  moreover have "11 < length (heap fs_images)" by code_simp
  moreover have "(''images'', 14) \<in> set (children (heap fs_images ! 11))" by code_simp
  ultimately show ?thesis by (rule reach_child)
qed

lemma funcode_reaches_hello: "reach (heap fs_challenge) 11 15"
proof -
  have "reach (heap fs_challenge) 11 11" by (rule reach_self)
  moreover have "11 < length (heap fs_challenge)" by code_simp
  moreover have "(''images'', 14) \<in> set (children (heap fs_challenge ! 11))" by code_simp
  ultimately have "reach (heap fs_challenge) 11 14" by (rule reach_child)
  moreover have "14 < length (heap fs_challenge)" by code_simp
  moreover have "(''hello'', 15) \<in> set (children (heap fs_challenge ! 14))" by code_simp
  ultimately show ?thesis by (rule reach_child)
qed


theorem rmdir_any_kind_witness:
  "well_formed fs_challenge
   \<and> \<not> falsy (Some ''the-ultimate-joke.txt'')
   \<and> parent_of fs_challenge (js_str (Some ''the-ultimate-joke.txt'')) = Some 1
   \<and> map_get (children (heap fs_challenge ! 1)) (last_segment (js_str (Some ''the-ultimate-joke.txt'')))
       = Some 2
   \<and> type (heap fs_challenge ! 2) = File
   \<and> snd (rmdir fs_challenge (Some ''the-ultimate-joke.txt'')) = []
   \<and> rm fs_challenge (Some ''the-ultimate-joke.txt'') = rmdir fs_challenge (Some ''the-ultimate-joke.txt'')
   \<and> \<not> falsy (Some ''funcode'')
   \<and> parent_of fs_challenge (js_str (Some ''funcode'')) = Some 1
   \<and> map_get (children (heap fs_challenge ! 1)) (last_segment (js_str (Some ''funcode''))) = Some 11
   \<and> type (heap fs_challenge ! 11) = Directory
   \<and> snd (rmdir fs_challenge (Some ''funcode'')) = []
   \<and> map_get (children (heap (fst (rmdir fs_challenge (Some ''funcode''))) ! 1))
         (last_segment (js_str (Some ''funcode''))) = None
   \<and> rm fs_challenge (Some ''funcode'') = (fs_challenge, rm_message ''funcode'' IsADirectory)"
proof -
  have a: "well_formed fs_challenge" by (rule well_formed_challenge)
  have f1: "\<not> falsy (Some ''the-ultimate-joke.txt'')" by (simp add: falsy_def)
  have f2: "parent_of fs_challenge (js_str (Some ''the-ultimate-joke.txt'')) = Some 1" by code_simp
  have f3: "map_get (children (heap fs_challenge ! 1))
              (last_segment (js_str (Some ''the-ultimate-joke.txt''))) = Some 2" by code_simp
  have f4: "type (heap fs_challenge ! 2) = File" by code_simp
  have d1: "\<not> falsy (Some ''funcode'')" by (simp add: falsy_def)
  have d2: "parent_of fs_challenge (js_str (Some ''funcode'')) = Some 1" by code_simp
  have d3: "map_get (children (heap fs_challenge ! 1)) (last_segment (js_str (Some ''funcode'')))
              = Some 11" by code_simp
  have d4: "type (heap fs_challenge ! 11) = Directory" by code_simp
  note t1 = rmdir_any_kind[OF a f1 f2 f3]
  note t2 = rmdir_any_kind[OF a d1 d2 d3]
  have r1: "snd (rmdir fs_challenge (Some ''the-ultimate-joke.txt'')) = []"
    using t1 by (simp only: snd_conv)
  have r2: "rm fs_challenge (Some ''the-ultimate-joke.txt'')
              = rmdir fs_challenge (Some ''the-ultimate-joke.txt'')"
    using t1 f4 by blast
  have r3: "snd (rmdir fs_challenge (Some ''funcode'')) = []"
    using t2 by (simp only: snd_conv)
  have r4: "map_get (children (heap (fst (rmdir fs_challenge (Some ''funcode''))) ! 1))
         (last_segment (js_str (Some ''funcode''))) = None"
    using t2 by blast
  have "js_str (Some ''funcode'') = ''funcode''" by (simp add: js_str_def)
  then have r5: "rm fs_challenge (Some ''funcode'')
              = (fs_challenge, rm_message ''funcode'' IsADirectory)"
    using t2 d4 by metis
  show ?thesis by (intro conjI; fact)
qed

theorem rmdir_nonempty_directory_witness:
  "well_formed fs_challenge
   \<and> \<not> falsy (Some ''funcode'')
   \<and> parent_of fs_challenge (js_str (Some ''funcode'')) = Some 1
   \<and> map_get (children (heap fs_challenge ! 1)) (last_segment (js_str (Some ''funcode''))) = Some 11
   \<and> type (heap fs_challenge ! 11) = Directory
   \<and> children (heap fs_challenge ! 11) \<noteq> []
   \<and> reach (heap fs_challenge) 11 15
   \<and> snd (rmdir fs_challenge (Some ''funcode'')) = []
   \<and> \<not> reach (heap (fst (rmdir fs_challenge (Some ''funcode''))))
           (root (fst (rmdir fs_challenge (Some ''funcode'')))) 15
   \<and> heap (fst (rmdir fs_challenge (Some ''funcode''))) ! 15 = heap fs_challenge ! 15"
proof -
  have a: "well_formed fs_challenge" by (rule well_formed_challenge)
  have d1: "\<not> falsy (Some ''funcode'')" by (simp add: falsy_def)
  have d2: "parent_of fs_challenge (js_str (Some ''funcode'')) = Some 1" by code_simp
  have d3: "map_get (children (heap fs_challenge ! 1)) (last_segment (js_str (Some ''funcode'')))
              = Some 11" by code_simp
  have d4: "type (heap fs_challenge ! 11) = Directory" by code_simp
  have d5: "children (heap fs_challenge ! 11) \<noteq> []" by code_simp
  note t = rmdir_nonempty_directory[OF a d1 d2 d3 d4 d5]
  have d6: "reach (heap fs_challenge) 11 15" by (rule funcode_reaches_hello)
  have r1: "snd (rmdir fs_challenge (Some ''funcode'')) = []"
    using t by (simp only: snd_conv)
  have r2: "\<not> reach (heap (fst (rmdir fs_challenge (Some ''funcode''))))
           (root (fst (rmdir fs_challenge (Some ''funcode'')))) 15"
    using t d6 by blast
  have r3: "heap (fst (rmdir fs_challenge (Some ''funcode''))) ! 15 = heap fs_challenge ! 15"
    using t d6 by blast
  show ?thesis by (intro conjI; fact)
qed

lemma well_formed_cursor: "well_formed fs \<Longrightarrow> cursor_is_directory fs"
  by (simp add: well_formed_def cursor_is_directory_def)

lemma rm_success:
  assumes "\<not> falsy path" and "parent_of fs (js_str path) = Some par"
    and "map_get (children (heap fs ! par)) (last_segment (js_str path)) = Some child"
    and "type (heap fs ! child) = File"
  shows "rm fs path = (unlink fs par (last_segment (js_str path)), [])"
proof -
  obtain p where p: "path = Some p" "p \<noteq> []"
    using assms(1) by (cases path) (auto simp: falsy_def)
  have "parent_of fs p = Some par"
    and "map_of (children (heap fs ! par)) (last_segment p) = Some child"
    using assms(2,3) p by (simp_all add: js_str_def map_get_def)
  then show ?thesis using p assms(4)
    by (simp add: rm_removeFile removeFile_def rm_message_def without_child_eq js_str_def)
qed

lemma detached_unlink:
  assumes wf: "well_formed fs" and par: "parent_of fs p = Some par"
    and ch: "map_get (children (heap fs ! par)) nm = Some child"
    and re: "reach (heap fs) child (currentDir fs)"
  shows "\<not> attached (unlink fs par nm)"
proof -
  have ok: "heap_ok (heap fs)" and r: "parent (heap fs ! root fs) = None"
    using wf by (simp_all add: well_formed_def)
  have pl: "par < length (heap fs)" using parent_of_bound[OF wf par] .
  have "\<not> reach (heap (unlink fs par nm)) (root fs) (currentDir fs)"
    using unlink_detaches[OF ok pl ch r re] .
  then show ?thesis by (simp add: attached_def)
qed

text \<open>
  C9 (the cursor is never left dangling), as the code has it. The seeded store is well
  formed with its cursor attached. From every well-formed state, attached or not, each
  operation leads to a well-formed state, so the current directory is always a directory of
  the store. An attached cursor stays attached under \<open>cd\<close>, \<open>mkdir\<close>, \<open>touch\<close> and \<open>mkdirp\<close>,
  and under \<open>rm\<close> and \<open>rmdir\<close> unless the child they unlink is the current directory or one
  of its ancestors; whenever \<open>rmdir\<close> (or \<open>rm\<close>, on a file) unlinks such a child, the cursor
  is detached afterwards.
\<close>

theorem cursor_attached_unless_unlinked:
  assumes "well_formed fs"
  shows "(well_formed new_FileSystem \<and> attached new_FileSystem)
    \<and> (well_formed (fst (cd fs path)) \<and> cursor_is_directory (fst (cd fs path)))
    \<and> (well_formed (fst (mkdir fs nm)) \<and> cursor_is_directory (fst (mkdir fs nm)))
    \<and> (well_formed (fst (touch fs nm)) \<and> cursor_is_directory (fst (touch fs nm)))
    \<and> (\<exists>fs'. mkdirp fs p = Some (fs', []) \<and> well_formed fs' \<and> cursor_is_directory fs'
              \<and> (attached fs \<longrightarrow> attached fs'))
    \<and> (well_formed (fst (rm fs path)) \<and> cursor_is_directory (fst (rm fs path)))
    \<and> (well_formed (fst (rmdir fs path)) \<and> cursor_is_directory (fst (rmdir fs path)))
    \<and> (attached fs \<longrightarrow>
          attached (fst (cd fs path)) \<and> attached (fst (mkdir fs nm)) \<and> attached (fst (touch fs nm)))
    \<and> (attached fs \<longrightarrow>
          attached (fst (rm fs path))
          \<or> (\<exists>par child. parent_of fs (js_str path) = Some par
                \<and> map_get (children (heap fs ! par)) (last_segment (js_str path)) = Some child
                \<and> reach (heap fs) child (currentDir fs)))
    \<and> (attached fs \<longrightarrow>
          attached (fst (rmdir fs path))
          \<or> (\<exists>par child. parent_of fs (js_str path) = Some par
                \<and> map_get (children (heap fs ! par)) (last_segment (js_str path)) = Some child
                \<and> reach (heap fs) child (currentDir fs)))
    \<and> (\<forall>par child.
          \<not> falsy path \<and> parent_of fs (js_str path) = Some par
          \<and> map_get (children (heap fs ! par)) (last_segment (js_str path)) = Some child
          \<and> reach (heap fs) child (currentDir fs)
          \<longrightarrow> \<not> attached (fst (rmdir fs path))
              \<and> (type (heap fs ! child) = File \<longrightarrow> \<not> attached (fst (rm fs path))))"
proof -
  note wf = assms
  have init: "well_formed new_FileSystem \<and> attached new_FileSystem"
    using well_formed_new attached_new by simp
  have c1: "well_formed (fst (cd fs path)) \<and> cursor_is_directory (fst (cd fs path))"
    using well_formed_cd[OF wf] well_formed_cursor by blast
  have c2: "well_formed (fst (mkdir fs nm)) \<and> cursor_is_directory (fst (mkdir fs nm))"
    using well_formed_mkdir[OF wf] well_formed_cursor by blast
  have c3: "well_formed (fst (touch fs nm)) \<and> cursor_is_directory (fst (touch fs nm))"
    using well_formed_touch[OF wf] well_formed_cursor by blast
  have c4: "\<exists>fs'. mkdirp fs p = Some (fs', []) \<and> well_formed fs' \<and> cursor_is_directory fs'
              \<and> (attached fs \<longrightarrow> attached fs')"
    using mkdirp_total[OF wf, of p] well_formed_cursor by blast
  have c5: "well_formed (fst (rm fs path)) \<and> cursor_is_directory (fst (rm fs path))"
    using well_formed_rm[OF wf] well_formed_cursor by blast
  have c6: "well_formed (fst (rmdir fs path)) \<and> cursor_is_directory (fst (rmdir fs path))"
    using well_formed_rmdir[OF wf] well_formed_cursor by blast
  have c7: "attached fs \<longrightarrow>
          attached (fst (cd fs path)) \<and> attached (fst (mkdir fs nm)) \<and> attached (fst (touch fs nm))"
    using attached_cd[OF wf] attached_mkdir[OF wf] attached_touch[OF wf] by blast
  have c8: "attached fs \<longrightarrow>
          attached (fst (rm fs path))
          \<or> (\<exists>par child. parent_of fs (js_str path) = Some par
                \<and> map_get (children (heap fs ! par)) (last_segment (js_str path)) = Some child
                \<and> reach (heap fs) child (currentDir fs))"
    using attached_rm[OF wf] by blast
  have c9: "attached fs \<longrightarrow>
          attached (fst (rmdir fs path))
          \<or> (\<exists>par child. parent_of fs (js_str path) = Some par
                \<and> map_get (children (heap fs ! par)) (last_segment (js_str path)) = Some child
                \<and> reach (heap fs) child (currentDir fs))"
    using attached_rmdir[OF wf] by blast
  have c10: "\<forall>par child.
          \<not> falsy path \<and> parent_of fs (js_str path) = Some par
          \<and> map_get (children (heap fs ! par)) (last_segment (js_str path)) = Some child
          \<and> reach (heap fs) child (currentDir fs)
          \<longrightarrow> \<not> attached (fst (rmdir fs path))
              \<and> (type (heap fs ! child) = File \<longrightarrow> \<not> attached (fst (rm fs path)))"
  proof (intro allI impI, elim conjE)
    fix par child
    assume nf: "\<not> falsy path" and par: "parent_of fs (js_str path) = Some par"
      and ch: "map_get (children (heap fs ! par)) (last_segment (js_str path)) = Some child"
      and re: "reach (heap fs) child (currentDir fs)"
    have d: "\<not> attached (unlink fs par (last_segment (js_str path)))"
      using detached_unlink[OF wf par ch re] .
    have "\<not> attached (fst (rmdir fs path))"
      using d rmdir_success[OF nf par ch] by simp
    moreover have "\<not> attached (fst (rm fs path))" if "type (heap fs ! child) = File"
      using d rm_success[OF nf par ch that] by simp
    ultimately show "\<not> attached (fst (rmdir fs path))
              \<and> (type (heap fs ! child) = File \<longrightarrow> \<not> attached (fst (rm fs path)))"
      by blast
  qed
  show ?thesis
    using init c1 c2 c3 c4 c5 c6 c7 c8 c9 c10 by (intro conjI; blast)
qed

theorem cursor_attached_unless_unlinked_witness:
  "well_formed fs_images \<and> attached fs_images
   \<and> attached (fst (cd fs_images (Some ''..'')))
   \<and> attached (fst (mkdir fs_images ''x''))
   \<and> attached (fst (touch fs_images ''t''))
   \<and> attached (fst (rmdir fs_images (Some ''hello'')))
   \<and> \<not> falsy (Some ''../../funcode'')
   \<and> parent_of fs_images (js_str (Some ''../../funcode'')) = Some 1
   \<and> map_get (children (heap fs_images ! 1)) (last_segment (js_str (Some ''../../funcode'')))
       = Some 11
   \<and> reach (heap fs_images) 11 (currentDir fs_images)
   \<and> well_formed fs_detached \<and> cursor_is_directory fs_detached \<and> \<not> attached fs_detached
   \<and> well_formed (fst (cd fs_detached (Some ''hello'')))
   \<and> cursor_is_directory (fst (cd fs_detached (Some ''hello'')))
   \<and> well_formed (fst (mkdir fs_detached ''x''))
   \<and> cursor_is_directory (fst (mkdir fs_detached ''x''))
   \<and> well_formed (fst (rmdir fs_detached (Some ''hello'')))
   \<and> cursor_is_directory (fst (rmdir fs_detached (Some ''hello'')))"
proof -
  have a: "well_formed fs_images" by (rule well_formed_images)
  have b: "attached fs_images" by (rule attached_images)
  note t1 = cursor_attached_unless_unlinked[OF a, of "Some ''..''" "''x''" "''a/b''"]
  note t2 = cursor_attached_unless_unlinked[OF a, of "Some ''hello''" "''t''" "''a/b''"]
  note t3 = cursor_attached_unless_unlinked[OF a, of "Some ''../../funcode''" "''t''" "''a/b''"]
  have p: "parent_of fs_images (js_str (Some ''hello'')) = Some 14" by code_simp
  have c: "map_get (children (heap fs_images ! 14)) (last_segment (js_str (Some ''hello''))) = Some 15"
    by code_simp
  have cur: "currentDir fs_images = 14" by code_simp
  have "\<not> reach (heap fs_images) 15 (currentDir fs_images)"
  proof
    assume "reach (heap fs_images) 15 (currentDir fs_images)"
    then have "15 \<le> currentDir fs_images"
      using reach_le a by (simp add: well_formed_def)
    then show False using cur by simp
  qed
  then have r4: "attached (fst (rmdir fs_images (Some ''hello'')))"
    using t2 b p c by auto
  have r1: "attached (fst (cd fs_images (Some ''..'')))" using t1 b by blast
  have r2: "attached (fst (mkdir fs_images ''x''))" using t1 b by blast
  have r3: "attached (fst (touch fs_images ''t''))" using t2 b by blast
  have d1: "\<not> falsy (Some ''../../funcode'')" by (simp add: falsy_def)
  have d2: "parent_of fs_images (js_str (Some ''../../funcode'')) = Some 1" by code_simp
  have d3: "map_get (children (heap fs_images ! 1)) (last_segment (js_str (Some ''../../funcode'')))
       = Some 11" by code_simp
  have d4: "reach (heap fs_images) 11 (currentDir fs_images)"
    using funcode_reaches_images cur by simp
  have w: "well_formed fs_detached" using t3 by (simp add: fs_detached_def)
  have w': "cursor_is_directory fs_detached" using t3 by (simp add: fs_detached_def)
  have "\<not> attached (fst (rmdir fs_images (Some ''../../funcode'')))"
    using t3 d1 d2 d3 d4 by blast
  then have n: "\<not> attached fs_detached" by (simp add: fs_detached_def)
  note u1 = cursor_attached_unless_unlinked[OF w, of "Some ''hello''" "''x''" "''a/b''"]
  have e1: "well_formed (fst (cd fs_detached (Some ''hello'')))" using u1 by blast
  have e2: "cursor_is_directory (fst (cd fs_detached (Some ''hello'')))" using u1 by blast
  have e3: "well_formed (fst (mkdir fs_detached ''x''))" using u1 by blast
  have e4: "cursor_is_directory (fst (mkdir fs_detached ''x''))" using u1 by blast
  have e5: "well_formed (fst (rmdir fs_detached (Some ''hello'')))" using u1 by blast
  have e6: "cursor_is_directory (fst (rmdir fs_detached (Some ''hello'')))" using u1 by blast
  show ?thesis by (intro conjI; fact)
qed

text \<open>
  C9 as stated fails: in \<open>thecmdchallenge/funcode/images\<close>, \<open>rmdir('../../funcode')\<close>
  succeeds and leaves the current directory unreachable from the root.
\<close>

theorem rmdir_detaches_cursor:
  "well_formed fs_images \<and> attached fs_images
   \<and> snd (rmdir fs_images (Some ''../../funcode'')) = []
   \<and> \<not> attached (fst (rmdir fs_images (Some ''../../funcode'')))"
proof -
  have nf: "\<not> falsy (Some ''../../funcode'')" by (simp add: falsy_def)
  have p: "parent_of fs_images (js_str (Some ''../../funcode'')) = Some 1" by code_simp
  have c: "map_get (children (heap fs_images ! 1)) (last_segment (js_str (Some ''../../funcode'')))
            = Some 11" by code_simp
  have st: "rmdir fs_images (Some ''../../funcode'')
            = (unlink fs_images 1 (last_segment (js_str (Some ''../../funcode''))), [])"
    using nf p c by (rule rmdir_success)
  have ok: "heap_ok (heap fs_images)" and r: "parent (heap fs_images ! root fs_images) = None"
    using well_formed_images by (simp_all add: well_formed_def)
  have l: "1 < length (heap fs_images)" by code_simp
  have cur: "currentDir fs_images = 14" by code_simp
  have "\<not> reach (heap (unlink fs_images 1 (last_segment (js_str (Some ''../../funcode'')))))
            (root fs_images) 14"
    using unlink_detaches[OF ok l c r funcode_reaches_images] .
  then have d: "\<not> attached (fst (rmdir fs_images (Some ''../../funcode'')))"
    using st cur by (simp add: attached_def)
  have a: "well_formed fs_images" by (rule well_formed_images)
  have b: "attached fs_images" by (rule attached_images)
  have e: "snd (rmdir fs_images (Some ''../../funcode'')) = []"
    using st by (simp only: snd_conv)
  show ?thesis by (intro conjI; fact)
qed

section \<open>The complete implementation: paths\<close>

subsection \<open>The working directory\<close>

lemma pwd_loop_root: "pwd_loop h r (Some r) acc = Some ([] # acc)"
  by (subst pwd_loop.simps) simp

lemma pwd_loop_up:
  "c \<noteq> r \<Longrightarrow> pwd_loop h r (Some c) acc = pwd_loop h r (parent (h ! c)) (name (h ! c) # acc)"
  by (subst pwd_loop.simps) simp

lemma pwd_loop_descend:
  assumes ok: "heap_ok h" and r: "parent (h ! r) = None"
  shows "a < length h \<Longrightarrow> descend h a names = Some b \<Longrightarrow>
         pwd_loop h r (Some b) acc = pwd_loop h r (Some a) (names @ acc)"
proof (induction names arbitrary: a)
  case Nil
  then show ?case by simp
next
  case (Cons n ns)
  then obtain c where c: "map_get (children (h ! a)) n = Some c" and d: "descend h c ns = Some b"
    by (auto split: option.splits)
  note cf = get_child_facts[OF ok Cons.prems(1) c]
  have "c \<noteq> r" using cf(2) r by auto
  then have "pwd_loop h r (Some c) (ns @ acc) = pwd_loop h r (Some a) (n # ns @ acc)"
    using cf(2,3) by (simp add: pwd_loop_up)
  then show ?case using Cons.IH[OF cf(1) d] by simp
qed

lemma pwd_loop_total:
  assumes ok: "heap_ok h" and rt: "rooted h r"
  shows "c < length h \<Longrightarrow> \<exists>xs. pwd_loop h r (Some c) acc = Some ([] # xs)"
proof (induction c arbitrary: acc rule: less_induct)
  case (less c)
  show ?case
  proof (cases "c = r")
    case True
    then show ?thesis by (simp add: pwd_loop_root)
  next
    case False
    then obtain p where p: "parent (h ! c) = Some p"
      using rt less.prems by (auto simp: rooted_iff)
    have "p < c" using parent_less[OF ok less.prems p] .
    then obtain xs where "pwd_loop h r (Some p) (name (h ! c) # acc) = Some ([] # xs)"
      using less.IH[of p] less.prems by fastforce
    then show ?thesis using False p by (simp add: pwd_loop_up)
  qed
qed

lemma join_root: "join ''/'' ([] # xs) = (if xs = [] then [] else CHR ''/'' # join ''/'' xs)"
  by (cases xs) simp_all

lemma absolute_Cons: "absolute (n # ns) = CHR ''/'' # n @ absolute ns"
  by (simp add: absolute_def)

lemma slash_join: "names \<noteq> [] \<Longrightarrow> CHR ''/'' # join ''/'' names = absolute names"
proof (induction names)
  case Nil
  then show ?case by simp
next
  case (Cons n ns)
  show ?case
  proof (cases ns)
    case Nil
    then show ?thesis by (simp add: absolute_def)
  next
    case (Cons m ms)
    then have "CHR ''/'' # join ''/'' ns = absolute ns" using Cons.IH by simp
    then show ?thesis using Cons by (simp add: absolute_Cons)
  qed
qed

lemma pwd_total:
  assumes "well_formed fs"
  shows "\<exists>s. pwd fs = Some (CHR ''/'' # s)"
proof -
  obtain xs where xs: "pwd_loop (heap fs) (root fs) (Some (currentDir fs)) [] = Some ([] # xs)"
    using pwd_loop_total[of "heap fs" "root fs" "currentDir fs" "[]"] assms
    by (auto simp: well_formed_def)
  show ?thesis using xs by (simp add: pwd_def join_root)
qed

lemma pwd_descend:
  assumes wf: "well_formed fs" and d: "descend (heap fs) (root fs) names = Some (currentDir fs)"
  shows "pwd fs = Some (if names = [] then ''/'' else absolute names)"
proof -
  have ok: "heap_ok (heap fs)" and r: "parent (heap fs ! root fs) = None"
    and rl: "root fs < length (heap fs)"
    using wf by (simp_all add: well_formed_def)
  have "pwd_loop (heap fs) (root fs) (Some (currentDir fs)) [] = Some ([] # names)"
    using pwd_loop_descend[OF ok r rl d, of "[]"] by (simp add: pwd_loop_root)
  then have loop: "pwd fs = Some (if join ''/'' ([] # names) = [] then ''/''
                                  else join ''/'' ([] # names))"
    by (simp add: pwd_def)
  show ?thesis
  proof (cases "names = []")
    case True
    then show ?thesis using loop by simp
  next
    case False
    then have "join ''/'' ([] # names) = absolute names"
      using slash_join[OF False] by (simp add: join_root)
    moreover have "absolute names \<noteq> []"
      using slash_join[OF False] by (metis list.distinct(1))
    ultimately show ?thesis using loop False by simp
  qed
qed

subsection \<open>Normalized absolute paths\<close>

lemma split_append_plain:
  "c \<notin> set n \<Longrightarrow> split c (n @ s) = (n @ hd (split c s)) # tl (split c s)"
proof (induction n)
  case Nil
  then show ?case by simp
next
  case (Cons x n)
  then show ?case by auto
qed

lemma split_absolute:
  "\<forall>n\<in>set names. CHR ''/'' \<notin> set n \<Longrightarrow> split CHR ''/'' (absolute names) = [] # names"
proof (induction names)
  case Nil
  show ?case by (simp add: absolute_def)
next
  case (Cons n ns)
  then show ?case by (simp add: absolute_Cons split_append_plain)
qed

lemma segments_absolute:
  assumes "\<forall>n\<in>set names. plain_name n"
  shows "segments (absolute names) = names"
proof -
  have "split CHR ''/'' (absolute names) = [] # names"
    using assms by (simp add: split_absolute plain_name_def)
  moreover have "filter (\<lambda>seg. seg \<noteq> []) names = names"
    using assms by (simp add: plain_name_def)
  ultimately show ?thesis by (simp add: segments_def)
qed

lemma resolve_loop_plain:
  "\<forall>n\<in>set names. plain_name n \<Longrightarrow> resolve_loop h a names = descend h a names"
proof (induction names arbitrary: a)
  case Nil
  show ?case by simp
next
  case (Cons n ns)
  then have "n \<noteq> ''..''" "n \<noteq> ''.''" by (simp_all add: plain_name_def)
  then show ?case using Cons by (simp split: option.splits)
qed

lemma resolvePath_absolute:
  assumes "names \<noteq> []" "\<forall>n\<in>set names. plain_name n"
  shows "resolvePath fs (Some (absolute names)) = descend (heap fs) (root fs) names"
proof -
  obtain n ns where n: "names = n # ns" using assms(1) by (cases names) auto
  have "absolute names \<noteq> []" "startsWith (absolute names) CHR ''/''"
    using n by (simp_all add: absolute_Cons startsWith_def)
  then show ?thesis
    using assms(2)
    by (simp add: resolvePath_def falsy_def js_str_def segments_absolute resolve_loop_plain)
qed

lemma cd_pwd_roundtrip:
  assumes wf: "well_formed fs" and ne: "names \<noteq> []" and pl: "\<forall>n\<in>set names. plain_name n"
    and res: "resolvePath fs (Some (absolute names)) = Some t"
    and dir: "type (heap fs ! t) = Directory"
  shows "cd fs (Some (absolute names)) = (fs\<lparr>currentDir := t\<rparr>, [])"
    and "pwd (fst (cd fs (Some (absolute names)))) = Some (absolute names)"
proof -
  obtain n ns where n: "names = n # ns" using ne by (cases names) auto
  then have "n \<noteq> []" using pl by (simp add: plain_name_def)
  then have "absolute names \<noteq> ''/''" using n by (simp add: absolute_Cons)
  then show cd: "cd fs (Some (absolute names)) = (fs\<lparr>currentDir := t\<rparr>, [])"
    using res dir by (simp add: cd_def)
  have d: "descend (heap fs) (root fs) names = Some t"
    using res resolvePath_absolute[OF ne pl] by simp
  have "t < length (heap fs)" using resolvePath_bound[OF wf res] .
  then have "well_formed (fs\<lparr>currentDir := t\<rparr>)" using wf dir by (simp add: well_formed_cd_to)
  then have "pwd (fs\<lparr>currentDir := t\<rparr>) = Some (if names = [] then ''/'' else absolute names)"
    using d by (intro pwd_descend) simp_all
  then show "pwd (fst (cd fs (Some (absolute names)))) = Some (absolute names)"
    using cd ne by simp
qed

lemma pwd_at_root: "well_formed fs \<Longrightarrow> currentDir fs = root fs \<Longrightarrow> pwd fs = Some ''/''"
  using pwd_descend[of fs "[]"] by simp

subsection \<open>Where resolution starts, and the segment \<open>..\<close>\<close>

lemma resolvePath_start:
  "resolvePath fs None = Some (currentDir fs)"
  "resolvePath fs (Some []) = Some (currentDir fs)"
  "p \<noteq> [] \<Longrightarrow> resolvePath fs (Some p) = resolve_loop (heap fs) (start_node fs p) (segments p)"
  "startsWith p CHR ''/'' \<Longrightarrow> start_node fs p = root fs"
  "\<not> startsWith p CHR ''/'' \<Longrightarrow> start_node fs p = currentDir fs"
  by (simp_all add: resolvePath_def falsy_def js_str_def start_node_def)

lemma resolve_loop_dotdot:
  "parent (h ! cur) = None \<Longrightarrow> resolve_loop h cur (''..'' # rest) = resolve_loop h cur rest"
  "parent (h ! cur) = Some p \<Longrightarrow> resolve_loop h cur (''..'' # rest) = resolve_loop h p rest"
  by simp_all

lemma resolvePath_dotdot_at_root:
  assumes "well_formed fs" "currentDir fs = root fs"
  shows "resolvePath fs (Some ''..'') = Some (root fs)"
proof -
  have "parent (heap fs ! currentDir fs) = None" using assms by (simp add: well_formed_def)
  moreover have "segments ''..'' = [''..'']" by (simp add: segments_def)
  ultimately show ?thesis
    using assms(2) by (simp add: resolvePath_def falsy_def js_str_def startsWith_def)
qed

lemma nonroot_has_parent:
  assumes "well_formed fs" "cur < length (heap fs)" "cur \<noteq> root fs"
  shows "\<exists>p. parent (heap fs ! cur) = Some p \<and> p < cur
      \<and> resolve_loop (heap fs) cur (''..'' # rest) = resolve_loop (heap fs) p rest"
proof -
  have "parent (heap fs ! cur) \<noteq> None"
    using assms by (auto simp: well_formed_def rooted_iff)
  then obtain p where p: "parent (heap fs ! cur) = Some p" by blast
  have "heap_ok (heap fs)" using assms(1) by (simp add: well_formed_def)
  then have "p < cur" using assms(2) p by (rule parent_less)
  then show ?thesis using p resolve_loop_dotdot(2)[OF p] by blast
qed

lemma cd_root: "cd fs (Some ''/'') = (fs\<lparr>currentDir := root fs\<rparr>, [])"
  by (simp add: cd_def)

lemma cd_failure_unchanged: "snd (cd fs path) \<noteq> [] \<Longrightarrow> fst (cd fs path) = fs"
  using cd_cases[of fs path] by auto

subsection \<open>Files on the way\<close>

lemma resolve_loop_append:
  "resolve_loop h a (xs @ ys) =
     (case resolve_loop h a xs of None \<Rightarrow> None | Some b \<Rightarrow> resolve_loop h b ys)"
proof (induction xs arbitrary: a)
  case Nil
  show ?case by simp
next
  case (Cons x xs)
  show ?case
  proof (cases "x = ''..''")
    case True
    then show ?thesis using Cons.IH by simp
  next
    case False
    then show ?thesis using Cons.IH by (cases "x = ''.''") (simp_all split: option.splits)
  qed
qed

lemma resolve_loop_dots: "\<forall>s\<in>set dots. s = ''.'' \<Longrightarrow> resolve_loop h a dots = Some a"
  by (induction dots) simp_all

lemma resolve_loop_name:
  "seg \<noteq> ''.'' \<Longrightarrow> seg \<noteq> ''..'' \<Longrightarrow>
   resolve_loop h a (seg # rest) =
     (case map_get (children (h ! a)) seg of None \<Rightarrow> None | Some c \<Rightarrow> resolve_loop h c rest)"
  by simp

lemma files_empty_iff:
  "files_empty h \<longleftrightarrow> (\<forall>i<length h. type (h ! i) = File \<longrightarrow> children (h ! i) = [])"
  by (auto simp: files_empty_def)

lemma files_empty_link_new:
  assumes "files_empty h" "par < length h" "type (h ! par) = Directory"
  shows "files_empty (link_new h par nm ty c)"
  unfolding files_empty_iff
proof (intro allI impI)
  fix i
  assume i: "i < length (link_new h par nm ty c)" and f: "type (link_new h par nm ty c ! i) = File"
  show "children (link_new h par nm ty c ! i) = []"
  proof (cases "i = length h")
    case True
    then show ?thesis using assms(2) by (simp add: link_new_last new_node_def)
  next
    case False
    then have il: "i < length h" using i by simp
    then have "type (h ! i) = File" using f assms(2) by (simp add: link_new_fields)
    then have "i \<noteq> par" "children (h ! i) = []"
      using assms(1,3) il by (auto simp: files_empty_iff)
    then show ?thesis using il assms(2) by (simp add: link_new_old)
  qed
qed

lemma files_empty_unlink: "files_empty (heap fs) \<Longrightarrow> files_empty (heap (unlink fs p nm))"
  by (auto simp: files_empty_iff unlink_def update_children_nth map_delete_def)

lemma files_empty_mkdir:
  "well_formed fs \<Longrightarrow> files_empty (heap fs) \<Longrightarrow> files_empty (heap (fst (mkdir fs nm)))"
  by (cases "map_has (children (heap fs ! currentDir fs)) nm")
     (simp_all add: mkdir_def files_empty_link_new well_formed_def)

lemma files_empty_touch:
  "well_formed fs \<Longrightarrow> files_empty (heap fs) \<Longrightarrow> files_empty (heap (fst (touch fs nm)))"
  by (cases "map_has (children (heap fs ! currentDir fs)) nm")
     (simp_all add: touch_def files_empty_link_new well_formed_def)

lemma files_empty_cd: "files_empty (heap fs) \<Longrightarrow> files_empty (heap (fst (cd fs path)))"
  using cd_cases[of fs path] by auto

lemma files_empty_rmdir: "files_empty (heap fs) \<Longrightarrow> files_empty (heap (fst (rmdir fs path)))"
  using rmdir_cases[of fs path] by (auto simp: files_empty_unlink)

lemma files_empty_rm: "files_empty (heap fs) \<Longrightarrow> files_empty (heap (fst (rm fs path)))"
  using removeFile_state[of fs path] by (auto simp: rm_removeFile files_empty_unlink)

lemma files_empty_new: "files_empty (heap new_FileSystem)"
  by code_simp

text \<open>
  C3 (a file in the middle of a path), as the complete implementation has it. When the walk
  stands on a file without children and the next segment other than \<open>.\<close> is a name,
  resolution fails; when it is \<open>..\<close>, the walk goes back to the parent of the file and
  goes on. A name is never passed over: the walk moves to the child stored under it, or fails.
\<close>

theorem resolve_through_file:
  assumes "p \<noteq> []"
    and "resolve_loop (heap fs) (start_node fs p) pre = Some f"
    and "type (heap fs ! f) = File" and "children (heap fs ! f) = []"
    and "\<forall>s\<in>set dots. s = ''.''"
    and "seg \<noteq> ''.''" and "seg \<noteq> ''..''"
  shows "(segments p = pre @ dots @ seg # rest \<longrightarrow> resolvePath fs (Some p) = None)
    \<and> (segments p = pre @ dots @ ''..'' # rest \<longrightarrow>
          resolvePath fs (Some p)
            = resolve_loop (heap fs) (case parent (heap fs ! f) of None \<Rightarrow> f | Some q \<Rightarrow> q) rest)
    \<and> (\<forall>a xs. resolve_loop (heap fs) a (xs @ seg # rest)
          = (case resolve_loop (heap fs) a xs of
               None \<Rightarrow> None
             | Some b \<Rightarrow> (case map_get (children (heap fs ! b)) seg of
                            None \<Rightarrow> None
                          | Some c \<Rightarrow> resolve_loop (heap fs) c rest)))"
proof (intro conjI impI allI)
  have at_f: "resolve_loop (heap fs) (start_node fs p) (pre @ dots @ ys) = resolve_loop (heap fs) f ys"
    for ys
    using assms(2,5) by (simp add: resolve_loop_append resolve_loop_dots)
  show "resolvePath fs (Some p) = None" if "segments p = pre @ dots @ seg # rest"
    using that assms(1,4,6,7) at_f[of "seg # rest"]
    by (simp add: resolvePath_start(3) map_get_def)
  show "resolvePath fs (Some p)
          = resolve_loop (heap fs) (case parent (heap fs ! f) of None \<Rightarrow> f | Some q \<Rightarrow> q) rest"
    if "segments p = pre @ dots @ ''..'' # rest"
    using that assms(1) at_f[of "''..'' # rest"] by (simp add: resolvePath_start(3))
  show "resolve_loop (heap fs) a (xs @ seg # rest)
          = (case resolve_loop (heap fs) a xs of
               None \<Rightarrow> None
             | Some b \<Rightarrow> (case map_get (children (heap fs ! b)) seg of
                            None \<Rightarrow> None
                          | Some c \<Rightarrow> resolve_loop (heap fs) c rest))" for a xs
    using assms(6,7) by (simp add: resolve_loop_append split: option.splits)
qed

theorem resolve_through_file_witness:
  "''the-ultimate-joke.txt/./x'' \<noteq> []
   \<and> resolve_loop (heap fs_challenge) (start_node fs_challenge ''the-ultimate-joke.txt/./x'')
        [''the-ultimate-joke.txt''] = Some 2
   \<and> type (heap fs_challenge ! 2) = File \<and> children (heap fs_challenge ! 2) = []
   \<and> segments ''the-ultimate-joke.txt/./x'' = [''the-ultimate-joke.txt''] @ [''.''] @ ''x'' # []
   \<and> resolvePath fs_challenge (Some ''the-ultimate-joke.txt/./x'') = None"
proof -
  have a: "''the-ultimate-joke.txt/./x'' \<noteq> []" by simp
  have b: "resolve_loop (heap fs_challenge) (start_node fs_challenge ''the-ultimate-joke.txt/./x'')
        [''the-ultimate-joke.txt''] = Some 2" by code_simp
  have c: "type (heap fs_challenge ! 2) = File" by code_simp
  have d: "children (heap fs_challenge ! 2) = []" by code_simp
  have e: "\<forall>s\<in>set [''.'']. s = ''.''" by simp
  have f: "''x'' \<noteq> ''.''" "''x'' \<noteq> ''..''" by simp_all
  have g: "segments ''the-ultimate-joke.txt/./x'' = [''the-ultimate-joke.txt''] @ [''.''] @ ''x'' # []"
    by code_simp
  note t = resolve_through_file[OF a b c d e f, of "[]"]
  have h: "resolvePath fs_challenge (Some ''the-ultimate-joke.txt/./x'') = None"
    using t g by blast
  show ?thesis by (intro conjI; fact)
qed

text \<open>
  C3 as stated fails: \<open>the-ultimate-joke.txt\<close> resolves to a file and is followed by the
  segment \<open>funcode\<close>, which is neither \<open>.\<close> nor \<open>..\<close>, and the path resolves, to the
  directory \<open>funcode\<close>.
\<close>

theorem resolve_file_dotdot_name:
  "resolvePath fs_challenge (Some ''the-ultimate-joke.txt'') = Some 2
   \<and> type (heap fs_challenge ! 2) = File
   \<and> segments ''the-ultimate-joke.txt/../funcode'' = [''the-ultimate-joke.txt'', ''..'', ''funcode'']
   \<and> resolvePath fs_challenge (Some ''the-ultimate-joke.txt/../funcode'') = Some 11
   \<and> name (heap fs_challenge ! 11) = ''funcode''"
  by code_simp


section \<open>Files and their children\<close>

text \<open>
  C8 (a file has no children). The seeded tree has the property, and \<open>cd\<close>, \<open>mkdir\<close>,
  \<open>touch\<close>, \<open>rm\<close> and \<open>rmdir\<close> keep it (\<open>files_empty_new\<close> and the lemmas beside it).
  \<open>mkdirp\<close> walks into an existing file as if it were a directory: from
  \<open>thecmdchallenge\<close>, \<open>mkdirp('the-ultimate-joke.txt/x')\<close> succeeds and leaves the file
  \<open>the-ultimate-joke.txt\<close> with the child \<open>x\<close>.
\<close>

theorem mkdirp_through_file:
  "type (heap fs_challenge ! 2) = File \<and> children (heap fs_challenge ! 2) = []
   \<and> map_option (\<lambda>(fs, msg). (msg, name (heap fs ! 2), type (heap fs ! 2), children (heap fs ! 2)))
       (mkdirp fs_challenge ''the-ultimate-joke.txt/x'')
     = Some ([], ''the-ultimate-joke.txt'', File, [(''x'', 21)])"
  by code_simp

section \<open>The reduced implementation against the specification\<close>

text \<open>
  C1 (navigation round trip and the form of the working directory). The complete
  implementation has the property (\<open>cd_pwd_roundtrip\<close>, \<open>pwd_at_root\<close>, \<open>pwd_descend\<close>,
  \<open>pwd_total\<close>). In the reduced implementation \<open>pwd\<close> returns the bare name of the current
  directory: after \<open>cd('/thecmdchallenge/home')\<close> it answers \<open>home\<close>, and after the module's
  own \<open>cd('thecmdchallenge')\<close> it answers \<open>thecmdchallenge\<close>, where the comment beside
  that call expects \<open>/thecmdchallenge\<close>.
\<close>

theorem lib_cd_pwd_drops_path:
  "map_sum id (\<lambda>(fs, ok). (ok, lib_pwd fs)) (lib_cd lib_fs (Some ''/thecmdchallenge/home''))
     = Inr (True, ''home'')
   \<and> map_sum id (\<lambda>(fs, ok). (ok, lib_pwd fs)) (lib_cd lib_fs (Some ''thecmdchallenge''))
     = Inr (True, ''thecmdchallenge'')"
  by code_simp

text \<open>
  C2 (where resolution starts). The complete implementation has the property
  (\<open>resolvePath_start\<close>). The reduced \<open>resolvePath\<close> starts at the current directory
  whatever the path: from \<open>thecmdchallenge\<close> the absolute path \<open>/thecmdchallenge\<close> is not
  found, although the walk from the root finds it; and an omitted path throws.
\<close>

theorem lib_resolvePath_ignores_leading_slash:
  "lib_currentDir lib_fs_cd = 1 \<and> lib_root lib_fs_cd = 0
   \<and> lib_resolvePath lib_fs_cd (Some ''/thecmdchallenge'') = Inr None
   \<and> lib_resolve_loop (lib_heap lib_fs_cd) (lib_root lib_fs_cd) (segments ''/thecmdchallenge'')
       = Some 1
   \<and> lib_resolvePath lib_fs_cd None = Inl TypeError"
  by code_simp

text \<open>
  The reduced \<open>resolvePath\<close> passes over every segment that follows a file and returns the
  file itself.
\<close>

lemma lib_resolvePath_skips_segments:
  "lib_resolvePath lib_fs (Some ''thecmdchallenge/home/user/documents/file1.txt/nope'')
     = Inr (Some 5)
   \<and> lib_resolvePath lib_fs (Some ''thecmdchallenge/home/user/documents/file1.txt'')
     = Inr (Some 5)
   \<and> isFile (lib_heap lib_fs ! 5)"
  by code_simp

text \<open>
  C4 (the segment \<open>..\<close>). The complete implementation has the property
  (\<open>resolvePath_dotdot_at_root\<close>, \<open>resolve_loop_dotdot\<close>, \<open>nonroot_has_parent\<close>). The reduced
  \<open>resolvePath\<close> has no case for \<open>..\<close>: at the root it looks for a child of that name and
  answers \<open>null\<close>.
\<close>

theorem lib_resolvePath_dotdot_at_root:
  "lib_currentDir lib_fs = lib_root lib_fs \<and> lib_resolvePath lib_fs (Some ''..'') = Inr None"
  by code_simp

text \<open>
  C5 (changing directory). The complete implementation has the property (\<open>cd_root\<close>,
  \<open>cd_cases\<close>, \<open>cd_failure_unchanged\<close>). The reduced \<open>cd\<close> has no case for \<open>/\<close>: from
  \<open>thecmdchallenge\<close> it reports success and stays where it is.
\<close>

theorem lib_cd_slash_stays:
  "lib_cd lib_fs_cd (Some ''/'') = Inr (lib_fs_cd, True)
   \<and> lib_currentDir lib_fs_cd \<noteq> lib_root lib_fs_cd"
  by code_simp

end
